theory Spec2Isabelle
  imports Main "HOL-Library.Sublist"
begin

section \<open>Data model\<close>

text \<open>
  JavaScript objects that the router compares with \<open>===\<close> carry an explicit identity:
  a route record (\<open>RouteRecord\<close>, the spec's MatchedEntry) has \<open>eid\<close>, a route
  (\<open>Route\<close>, the spec's Location) has \<open>rid\<close>. Guard functions, callbacks and
  component instances are opaque and named by a number.
\<close>

type_synonym key = string

type_synonym hook = nat

type_synonym callback = nat

type_synonym inst = nat

type_synonym error = nat

text \<open>\<open>def.options[name]\<close>: absent, one guard, or an array of guards.\<close>

datatype guard_decl = NoGuard | OneGuard hook | GuardList "hook list"

record component =
  beforeRouteLeave :: guard_decl
  beforeRouteUpdate :: guard_decl
  beforeRouteEnter :: guard_decl

record entry =
  eid :: nat
  beforeEnter :: "hook option"
  components :: "(key \<times> component) list"

record route =
  rid :: nat
  path :: string
  query :: "(string \<times> string) list"
  hash :: string
  fullPath :: string
  matched :: "entry list"

section \<open>resolveQueue\<close>

text \<open>
  \<open>xs[i]\<close> in JavaScript: \<open>undefined\<close> (here \<open>None\<close>) outside the array.
\<close>

definition js_index :: "'a list \<Rightarrow> nat \<Rightarrow> 'a option" where
  "js_index xs i = (if i < length xs then Some (xs ! i) else None)"

text \<open>\<open>a !== b\<close> on two possibly undefined route records: identity, not contents.\<close>

definition entry_neq :: "entry option \<Rightarrow> entry option \<Rightarrow> bool" where
  "entry_neq a b = (map_option eid a \<noteq> map_option eid b)"

record queues =
  updated :: "entry list"
  activated :: "entry list"
  deactivated :: "entry list"

text \<open>The \<open>for\<close> loop of \<open>resolveQueue\<close>: the value of \<open>i\<close> when it ends.\<close>

function resolveQueue_loop :: "entry list \<Rightarrow> entry list \<Rightarrow> nat \<Rightarrow> nat \<Rightarrow> nat" where
  "resolveQueue_loop current nxt mx i =
     (if i < mx then
        (if entry_neq (js_index current i) (js_index nxt i) then i
         else resolveQueue_loop current nxt mx (Suc i))
      else i)"
  by pat_completeness auto

termination
  by (relation "measure (\<lambda>(current, nxt, mx, i). mx - i)") auto

declare resolveQueue_loop.simps [simp del]

definition resolveQueue :: "entry list \<Rightarrow> entry list \<Rightarrow> queues" where
  "resolveQueue current nxt =
     (let i = resolveQueue_loop current nxt (max (length current) (length nxt)) 0
      in \<lparr>updated = take i nxt, activated = drop i nxt, deactivated = drop i current\<rparr>)"

section \<open>Values, guards and callbacks\<close>

text \<open>
  A location object handed to \<open>push\<close>, \<open>replace\<close> or a guard's continuation:
  \<open>lo_path\<close> and \<open>lo_name\<close> are its \<open>path\<close> and \<open>name\<close> when they are strings,
  \<open>lo_replace\<close> the truthiness of its \<open>replace\<close> field.
\<close>

record location_obj =
  lo_path :: "string option"
  lo_name :: "string option"
  lo_replace :: bool

datatype raw_location = LocString string | LocObject location_obj

text \<open>
  The JavaScript values that reach \<open>abort\<close> and the continuation of a guard:
  \<open>undefined\<close>, a boolean, an error object, a string, an object, a function.
\<close>

datatype js_val =
    Undefined
  | Bool bool
  | Error error
  | Str string
  | Obj location_obj
  | Fun callback

text \<open>
  Modelled from the spec: \<open>isError\<close> of \<open>util/warn\<close>, which is not part of the
  sources at hand; it holds of genuine error values only.
\<close>

fun isError :: "js_val \<Rightarrow> bool" where
  "isError (Error e) = True"
| "isError v = False"

text \<open>JavaScript truthiness, for \<open>err && \<dots>\<close>.\<close>

fun truthy :: "js_val \<Rightarrow> bool" where
  "truthy Undefined = False"
| "truthy (Bool b) = b"
| "truthy (Str s) = (s \<noteq> [])"
| "truthy v = True"

text \<open>
  What a guard does when it is called with \<open>(to, from, next)\<close>: it calls \<open>next\<close>
  with a value before it returns, it throws, or it returns without having called
  \<open>next\<close> (an asynchronous guard, whose continuation may be called later).
\<close>

datatype hook_action = Calls js_val | Throws js_val | Suspends

text \<open>
  The steps of a guard queue: a registered hook as it is, a component guard bound to its
  instance by \<open>bindGuard\<close>, a \<open>beforeRouteEnter\<close> guard wrapped by
  \<open>bindEnterGuard\<close> (with its route record, its key and the address of the
  \<open>postEnterCbs\<close> array it pushes to), and the step made by
  \<open>resolveAsyncComponents\<close>.
\<close>

datatype guard =
    Plain hook
  | Bound hook inst
  | EnterGuard hook entry key nat
  | AsyncStep "entry list"

text \<open>
  The router object as the history uses it. \<open>match\<close> is the external matcher.
  \<open>behaviour\<close> and \<open>resolveAsync\<close> stand for the user's code: what each guard
  function, and the step of \<open>resolveAsyncComponents\<close>, does when called.
\<close>

record router =
  beforeHooks :: "hook list"
  resolveHooks :: "hook list"
  afterHooks :: "hook option list"
  app :: bool
  match :: "raw_location \<Rightarrow> route \<Rightarrow> route"
  behaviour :: "hook \<Rightarrow> route \<Rightarrow> route \<Rightarrow> hook_action"
  resolveAsync :: "entry list \<Rightarrow> route \<Rightarrow> route \<Rightarrow> hook_action"

text \<open>
  The closures of the source, as data. \<open>transitionTo\<close> receives the caller's
  \<open>onComplete\<close>: a user callback, or the arrow function of \<open>push\<close> or \<open>replace\<close>
  (holding the user's optional callback). \<open>confirmTransition\<close> receives the arrow
  functions of \<open>transitionTo\<close> or of \<open>go\<close> (holding \<open>targetIndex\<close>).
\<close>

datatype tt_complete = UserComplete callback | PushComplete "callback option"
  | ReplaceComplete "callback option"

datatype complete_cb = TransitionToComplete "tt_complete option" | GoComplete int

datatype abort_cb = TransitionToAbort "callback option"

text \<open>The variables a call of \<open>confirmTransition\<close> closes over.\<close>

record transition =
  t_route :: route
  t_current :: route
  t_onComplete :: complete_cb
  t_onAbort :: "abort_cb option"

text \<open>
  Which queue is running: the first (it remembers \<open>activated\<close>, from which the enter
  guards are extracted when it ends) or the second (with the address of its
  \<open>postEnterCbs\<close> array).
\<close>

datatype phase = QueueA "entry list" | QueueB nat

text \<open>
  The continuation \<open>next\<close> of a guard that has not called it yet: the transition, the
  queue that is running, the steps after this one, and the guard itself.
\<close>

record continuation =
  k_transition :: transition
  k_phase :: phase
  k_rest :: "guard option list"
  k_guard :: guard

text \<open>A deferred callback of an enter guard: \<open>poll(cb, match.instances, key, isValid)\<close>.\<close>

record post_cb =
  pc_cb :: callback
  pc_entry :: nat
  pc_key :: key
  pc_route :: nat

text \<open>
  Every call the history makes to code outside it is recorded, in order:
  \<open>ensureURL(push)\<close>; a global error callback called with the error; the warning and
  \<open>console.error\<close> of an error nobody listens to; the \<open>onAbort\<close> and the
  \<open>onComplete\<close> handed to \<open>confirmTransition\<close> (with the identity of the route of
  that transition) and those of the caller of \<open>transitionTo\<close>, \<open>push\<close> or \<open>replace\<close>;
  a ready callback (with the route, or without argument when \<open>onReady\<close> calls it at
  once) and a ready-error callback; the listener; an after hook (new route, previous
  route); a guard called by the iterator (target, current); a deferred callback of an
  enter guard called with the instance.
\<close>

datatype event =
    EnsureURL bool
  | ErrorCb callback js_val
  | Warn js_val
  | OnAbort nat js_val
  | UserOnAbort callback js_val
  | OnComplete nat
  | UserOnComplete callback nat
  | ReadyCb callback "nat option"
  | ReadyErrorCb callback js_val
  | Listener callback nat
  | AfterHook hook nat nat
  | GuardCall guard nat nat
  | Deliver callback inst

text \<open>
  The history object: the fields of \<open>History\<close> and of \<open>AbstractHistory\<close>, and the
  mutable objects it shares with the outside: the \<open>instances\<close> map of every route
  record (by \<open>eid\<close>), the \<open>postEnterCbs\<close> arrays (by address), the callbacks
  handed to \<open>$nextTick\<close>, the timers set by \<open>poll\<close> (delay and callback), the
  continuations of suspended guards, the next fresh object identity, and the trace of
  calls.
\<close>

record history =
  router :: router
  current :: route
  pending :: "route option"
  cb :: "callback option"
  ready :: bool
  readyCbs :: "callback list"
  readyErrorCbs :: "callback list"
  errorCbs :: "callback list"
  stack :: "route list"
  index :: int
  instances :: "nat \<Rightarrow> key \<Rightarrow> inst option"
  postEnterCbs :: "nat \<Rightarrow> post_cb list"
  nextTick :: "nat list"
  timers :: "(nat \<times> post_cb) list"
  suspended :: "continuation list"
  next_obj :: nat
  trace :: "event list"

definition log :: "history \<Rightarrow> event list \<Rightarrow> history" where
  "log st evs = st\<lparr>trace := trace st @ evs\<rparr>"

section \<open>History: registration, abort, commit\<close>

text \<open>
  Modelled from the spec: \<open>START\<close> of \<open>util/route\<close>, the sentinel "nowhere" route the
  history starts on. It is the object with identity 0.
\<close>

definition START :: route where
  "START = \<lparr>rid = 0, path = ''/'', query = [], hash = [], fullPath = ''/'', matched = []\<rparr>"

text \<open>
  Modelled from the spec: \<open>isSameRoute\<close> of \<open>util/route\<close>: semantically the same
  location, that is the same path, query and hash.
\<close>

definition isSameRoute :: "route \<Rightarrow> route \<Rightarrow> bool" where
  "isSameRoute a b = (path a = path b \<and> query a = query b \<and> hash a = hash b)"

text \<open>The constructors of \<open>History\<close> and \<open>AbstractHistory\<close>.\<close>

definition init :: "router \<Rightarrow> history" where
  "init r = \<lparr>router = r, current = START, pending = None, cb = None, ready = False,
     readyCbs = [], readyErrorCbs = [], errorCbs = [], stack = [], index = - 1,
     instances = (\<lambda>_ _. None), postEnterCbs = (\<lambda>_. []), nextTick = [], timers = [],
     suspended = [],
     next_obj = 1, trace = []\<rparr>"

definition listen :: "history \<Rightarrow> callback \<Rightarrow> history" where
  "listen st c = st\<lparr>cb := Some c\<rparr>"

definition onReady :: "history \<Rightarrow> callback \<Rightarrow> callback option \<Rightarrow> history" where
  "onReady st c errorCb =
     (if ready st then log st [ReadyCb c None]
      else (let st1 = st\<lparr>readyCbs := readyCbs st @ [c]\<rparr>
            in case errorCb of
                 Some e \<Rightarrow> st1\<lparr>readyErrorCbs := readyErrorCbs st1 @ [e]\<rparr>
               | None \<Rightarrow> st1))"

definition onError :: "history \<Rightarrow> callback \<Rightarrow> history" where
  "onError st errorCb = st\<lparr>errorCbs := errorCbs st @ [errorCb]\<rparr>"

text \<open>
  \<open>AbstractHistory.ensureURL\<close> does nothing; the call is recorded, with the truthiness of
  its argument.
\<close>

definition ensureURL :: "history \<Rightarrow> bool \<Rightarrow> history" where
  "ensureURL st push_flag = log st [EnsureURL push_flag]"

text \<open>The \<open>onAbort\<close> arrow function that \<open>transitionTo\<close> hands to \<open>confirmTransition\<close>.\<close>

fun call_onAbort :: "history \<Rightarrow> abort_cb \<Rightarrow> js_val \<Rightarrow> history" where
  "call_onAbort st (TransitionToAbort onAbort) err =
     (let st1 = (case onAbort of Some u \<Rightarrow> log st [UserOnAbort u err] | None \<Rightarrow> st)
      in if truthy err \<and> \<not> ready st1
         then log (st1\<lparr>ready := True\<rparr>) (map (\<lambda>c. ReadyErrorCb c err) (readyErrorCbs st1))
         else st1)"

text \<open>The \<open>abort\<close> arrow function of \<open>confirmTransition\<close>.\<close>

definition abort :: "history \<Rightarrow> transition \<Rightarrow> js_val \<Rightarrow> history" where
  "abort st T err =
     (let st1 = (if isError err then
                   (if errorCbs st \<noteq> [] then log st (map (\<lambda>c. ErrorCb c err) (errorCbs st))
                    else log st [Warn err])
                 else st)
      in case t_onAbort T of
           Some onAbort \<Rightarrow> call_onAbort (log st1 [OnAbort (rid (t_route T)) err]) onAbort err
         | None \<Rightarrow> st1)"

definition updateRoute :: "history \<Rightarrow> route \<Rightarrow> history" where
  "updateRoute st r =
     (let prev = current st;
          st1 = st\<lparr>current := r\<rparr>;
          st2 = (case cb st1 of Some c \<Rightarrow> log st1 [Listener c (rid r)] | None \<Rightarrow> st1)
      in log st2 (concat (map (\<lambda>h. case h of Some h' \<Rightarrow> [AfterHook h' (rid r) (rid prev)]
                                            | None \<Rightarrow> [])
                           (afterHooks (router st2)))))"

text \<open>\<open>xs.slice(0, e)\<close>: a negative end counts from the end of the array.\<close>

definition js_slice0 :: "'a list \<Rightarrow> int \<Rightarrow> 'a list" where
  "js_slice0 xs e =
     (let n = int (length xs);
          k = (if e < 0 then max (n + e) 0 else min e n)
      in take (nat k) xs)"

text \<open>The \<open>onComplete\<close> that \<open>transitionTo\<close> received, called with the route.\<close>

fun call_tt_complete :: "history \<Rightarrow> tt_complete \<Rightarrow> route \<Rightarrow> history" where
  "call_tt_complete st (UserComplete u) r = log st [UserOnComplete u (rid r)]"
| "call_tt_complete st (PushComplete onComplete) r =
     (let st1 = st\<lparr>stack := js_slice0 (stack st) (index st + 1) @ [r]\<rparr>;
          st2 = st1\<lparr>index := index st1 + 1\<rparr>
      in case onComplete of Some u \<Rightarrow> log st2 [UserOnComplete u (rid r)] | None \<Rightarrow> st2)"
| "call_tt_complete st (ReplaceComplete onComplete) r =
     (let st1 = st\<lparr>stack := js_slice0 (stack st) (index st) @ [r]\<rparr>
      in case onComplete of Some u \<Rightarrow> log st1 [UserOnComplete u (rid r)] | None \<Rightarrow> st1)"

text \<open>
  The \<open>onComplete\<close> arrow functions handed to \<open>confirmTransition\<close>, by \<open>transitionTo\<close>
  and by \<open>go\<close>.
\<close>

fun call_onComplete :: "history \<Rightarrow> complete_cb \<Rightarrow> route \<Rightarrow> history" where
  "call_onComplete st (TransitionToComplete onComplete) r =
     (let st1 = updateRoute st r;
          st2 = (case onComplete of Some c \<Rightarrow> call_tt_complete st1 c r | None \<Rightarrow> st1);
          st3 = ensureURL st2 False
      in if \<not> ready st3
         then log (st3\<lparr>ready := True\<rparr>) (map (\<lambda>c. ReadyCb c (Some (rid r))) (readyCbs st3))
         else st3)"
| "call_onComplete st (GoComplete targetIndex) r =
     updateRoute (st\<lparr>index := targetIndex\<rparr>) r"

section \<open>Guard extraction\<close>

datatype hook_name = BeforeRouteLeave | BeforeRouteUpdate | BeforeRouteEnter

text \<open>\<open>def.options[key]\<close>; the normalisation by \<open>_Vue.extend\<close> is external.\<close>

fun extractGuard :: "component \<Rightarrow> hook_name \<Rightarrow> guard_decl" where
  "extractGuard d BeforeRouteLeave = beforeRouteLeave d"
| "extractGuard d BeforeRouteUpdate = beforeRouteUpdate d"
| "extractGuard d BeforeRouteEnter = beforeRouteEnter d"

text \<open>What the callback given to \<open>flatMapComponents\<close> returns: nothing, a value, an array.\<close>

datatype 'a js_item = Absent | Single 'a | Many "'a list"

text \<open>
  Modelled from the spec: \<open>flatten\<close> of \<open>util/resolve-components\<close>: one level of
  arrays is spread, an absent item stays as a gap.
\<close>

fun flatten :: "'a option js_item list \<Rightarrow> 'a option list" where
  "flatten [] = []"
| "flatten (Absent # xs) = None # flatten xs"
| "flatten (Single x # xs) = x # flatten xs"
| "flatten (Many ys # xs) = ys @ flatten xs"

text \<open>
  Modelled from the spec: \<open>flatMapComponents\<close> of \<open>util/resolve-components\<close>: for
  each route record, for each of its components in order, the callback applied to the
  definition, the instance registered under the key (if any), the record and the key.
\<close>

definition flatMapComponents ::
  "(nat \<Rightarrow> key \<Rightarrow> inst option) \<Rightarrow> entry list \<Rightarrow>
   (component \<Rightarrow> inst option \<Rightarrow> entry \<Rightarrow> key \<Rightarrow> 'a) \<Rightarrow> 'a list" where
  "flatMapComponents ins ms fn =
     concat (map (\<lambda>m. map (\<lambda>(k, d). fn d (ins (eid m) k) m k) (components m)) ms)"

definition extractGuards ::
  "(nat \<Rightarrow> key \<Rightarrow> inst option) \<Rightarrow> entry list \<Rightarrow> hook_name \<Rightarrow>
   (hook \<Rightarrow> inst option \<Rightarrow> entry \<Rightarrow> key \<Rightarrow> guard option) \<Rightarrow> bool \<Rightarrow> guard option list" where
  "extractGuards ins records name bind reverse =
     (let guards = flatMapComponents ins records
            (\<lambda>d i m k. case extractGuard d name of
                 NoGuard \<Rightarrow> Absent
               | OneGuard g \<Rightarrow> Single (bind g i m k)
               | GuardList gs \<Rightarrow> Many (map (\<lambda>g. bind g i m k) gs))
      in flatten (if reverse then rev guards else guards))"

fun bindGuard :: "hook \<Rightarrow> inst option \<Rightarrow> entry \<Rightarrow> key \<Rightarrow> guard option" where
  "bindGuard g (Some i) m k = Some (Bound g i)"
| "bindGuard g None m k = None"

definition extractLeaveGuards ::
  "(nat \<Rightarrow> key \<Rightarrow> inst option) \<Rightarrow> entry list \<Rightarrow> guard option list" where
  "extractLeaveGuards ins deact = extractGuards ins deact BeforeRouteLeave bindGuard True"

definition extractUpdateHooks ::
  "(nat \<Rightarrow> key \<Rightarrow> inst option) \<Rightarrow> entry list \<Rightarrow> guard option list" where
  "extractUpdateHooks ins upd = extractGuards ins upd BeforeRouteUpdate bindGuard False"

definition bindEnterGuard :: "hook \<Rightarrow> entry \<Rightarrow> key \<Rightarrow> nat \<Rightarrow> guard" where
  "bindEnterGuard g m k cbs = EnterGuard g m k cbs"

definition extractEnterGuards ::
  "(nat \<Rightarrow> key \<Rightarrow> inst option) \<Rightarrow> entry list \<Rightarrow> nat \<Rightarrow> guard option list" where
  "extractEnterGuards ins act cbs =
     extractGuards ins act BeforeRouteEnter (\<lambda>g _ m k. Some (bindEnterGuard g m k cbs)) False"

text \<open>What a step of the queue does when the iterator calls it.\<close>

fun guard_action :: "router \<Rightarrow> guard \<Rightarrow> route \<Rightarrow> route \<Rightarrow> hook_action" where
  "guard_action rt (Plain h) to from = behaviour rt h to from"
| "guard_action rt (Bound h i) to from = behaviour rt h to from"
| "guard_action rt (EnterGuard h m k cbs) to from = behaviour rt h to from"
| "guard_action rt (AsyncStep ms) to from = resolveAsync rt ms to from"

text \<open>The first queue of \<open>confirmTransition\<close>.\<close>

definition build_queue :: "history \<Rightarrow> queues \<Rightarrow> guard option list" where
  "build_queue st qs =
     extractLeaveGuards (instances st) (deactivated qs)
     @ map (\<lambda>h. Some (Plain h)) (beforeHooks (router st))
     @ extractUpdateHooks (instances st) (updated qs)
     @ map (\<lambda>m. map_option Plain (beforeEnter m)) (activated qs)
     @ [Some (AsyncStep (activated qs))]"

text \<open>\<open>this.pending !== route\<close>: identity of route objects.\<close>

definition pending_is :: "history \<Rightarrow> route \<Rightarrow> bool" where
  "pending_is st r = (map_option rid (pending st) = Some (rid r))"

text \<open>The callback that ends the second queue.\<close>

definition finish :: "history \<Rightarrow> transition \<Rightarrow> nat \<Rightarrow> history" where
  "finish st T cbs =
     (if \<not> pending_is st (t_route T) then abort st T Undefined
      else (let st1 = st\<lparr>pending := None\<rparr>;
                st2 = call_onComplete (log st1 [OnComplete (rid (t_route T))])
                        (t_onComplete T) (t_route T)
            in if app (router st2) then st2\<lparr>nextTick := nextTick st2 @ [cbs]\<rparr> else st2))"

text \<open>\<open>to\<close> as the argument of \<open>push\<close> or \<open>replace\<close>.\<close>

fun redirect_target :: "js_val \<Rightarrow> raw_location option" where
  "redirect_target (Str s) = Some (LocString s)"
| "redirect_target (Obj l) =
     (if lo_path l \<noteq> None \<or> lo_name l \<noteq> None then Some (LocObject l) else None)"
| "redirect_target v = None"

fun wants_replace :: "js_val \<Rightarrow> bool" where
  "wants_replace (Obj l) = lo_replace l"
| "wants_replace v = False"

fun is_function :: "js_val \<Rightarrow> bool" where
  "is_function (Fun c) = True"
| "is_function v = False"

section \<open>The transition machine\<close>

definition push_post_cb :: "history \<Rightarrow> nat \<Rightarrow> post_cb \<Rightarrow> history" where
  "push_post_cb st cbs p = st\<lparr>postEnterCbs := (postEnterCbs st)(cbs := postEnterCbs st cbs @ [p])\<rparr>"

definition suspend :: "history \<Rightarrow> continuation \<Rightarrow> history" where
  "suspend st k = st\<lparr>suspended := suspended st @ [k]\<rparr>"

text \<open>Termination: the first queue comes before the second.\<close>

fun phase_rank :: "phase \<Rightarrow> nat" where
  "phase_rank (QueueA act) = 1"
| "phase_rank (QueueB cbs) = 0"

text \<open>
  Modelled from the spec: \<open>runQueue\<close> of \<open>util/async\<close>, which is not part of the
  sources at hand: the steps run in order, an absent step is skipped, and after the last
  step the callback runs. The first queue ends by building and running the second one,
  the second by \<open>finish\<close>. It is defined together with the functions of the sources
  that call it and that it calls. The closures of \<open>confirmTransition\<close> are turned into
  first-order functions; the state of the history is passed along and returned, and
  \<open>None\<close> means that the run did not come to an end with the given fuel.

  \<^item> \<open>iterator\<close> is the iterator. A guard that returns without having called its
    continuation leaves the run where it is; its continuation is kept in \<open>suspended\<close>
    and \<open>resume\<close> runs it later.
  \<^item> \<open>guard_next\<close> is the continuation that the guard function itself receives: the
    result handler of the iterator, wrapped by \<open>bindEnterGuard\<close> for enter guards.
  \<^item> \<open>resultHandler\<close> is the arrow function \<open>(to) => \<dots>\<close> of the iterator. A redirect
    calls \<open>push\<close> or \<open>replace\<close> again, and guards may redirect for ever: each redirect
    takes one unit of fuel.
  \<^item> \<open>transitionTo\<close> gives the route returned by the matcher a fresh identity: the matcher
    creates a new route object at each call.

  The listener, the after hooks, the error and ready callbacks and the callbacks of the
  caller are recorded in the trace when they are called and are taken to return
  normally without calling into the history.
\<close>

function (sequential) runQueue :: "nat \<Rightarrow> history \<Rightarrow> transition \<Rightarrow> phase \<Rightarrow> guard option list \<Rightarrow> history option"
and iterator ::
  "nat \<Rightarrow> history \<Rightarrow> transition \<Rightarrow> phase \<Rightarrow> guard option list \<Rightarrow> guard \<Rightarrow> history option"
and guard_next ::
  "nat \<Rightarrow> history \<Rightarrow> transition \<Rightarrow> phase \<Rightarrow> guard option list \<Rightarrow> guard \<Rightarrow> js_val
   \<Rightarrow> history option"
and resultHandler ::
  "nat \<Rightarrow> history \<Rightarrow> transition \<Rightarrow> phase \<Rightarrow> guard option list \<Rightarrow> js_val \<Rightarrow> history option"
and push ::
  "nat \<Rightarrow> history \<Rightarrow> raw_location \<Rightarrow> callback option \<Rightarrow> callback option \<Rightarrow> history option"
and replace ::
  "nat \<Rightarrow> history \<Rightarrow> raw_location \<Rightarrow> callback option \<Rightarrow> callback option \<Rightarrow> history option"
and transitionTo ::
  "nat \<Rightarrow> history \<Rightarrow> raw_location \<Rightarrow> tt_complete option \<Rightarrow> callback option \<Rightarrow> history option"
and confirmTransition ::
  "nat \<Rightarrow> history \<Rightarrow> route \<Rightarrow> complete_cb \<Rightarrow> abort_cb option \<Rightarrow> history option"
where
  "runQueue f st T (QueueA act) [] =
     (let cbs = next_obj st;
          st1 = st\<lparr>next_obj := Suc cbs, postEnterCbs := (postEnterCbs st)(cbs := [])\<rparr>;
          queue = extractEnterGuards (instances st1) act cbs
                  @ map (\<lambda>h. Some (Plain h)) (resolveHooks (router st1))
      in runQueue f st1 T (QueueB cbs) queue)"
| "runQueue f st T (QueueB cbs) [] = Some (finish st T cbs)"
| "runQueue f st T ph (None # q) = runQueue f st T ph q"
| "runQueue f st T ph (Some g # q) = iterator f st T ph q g"
| "iterator f st T ph q g =
     (if \<not> pending_is st (t_route T) then Some (abort st T Undefined)
      else (let st1 = log st [GuardCall g (rid (t_route T)) (rid (t_current T))]
            in case guard_action (router st1) g (t_route T) (t_current T) of
                 Throws e \<Rightarrow> Some (abort st1 T e)
               | Suspends \<Rightarrow>
                   Some (suspend st1
                     \<lparr>k_transition = T, k_phase = ph, k_rest = q, k_guard = g\<rparr>)
               | Calls v \<Rightarrow> guard_next f st1 T ph q g v))"
| "guard_next f st T ph q g v =
     (case g of
        EnterGuard h m k cbs \<Rightarrow>
          (case resultHandler f st T ph q v of
             None \<Rightarrow> None
           | Some st1 \<Rightarrow>
               Some (case v of
                       Fun c \<Rightarrow> push_post_cb st1 cbs
                         \<lparr>pc_cb = c, pc_entry = eid m, pc_key = k, pc_route = rid (t_route T)\<rparr>
                     | _ \<Rightarrow> st1))
      | _ \<Rightarrow> resultHandler f st T ph q v)"
| "resultHandler f st T ph q to =
     (if to = Bool False \<or> isError to then Some (abort (ensureURL st True) T to)
      else (case redirect_target to of
              Some loc \<Rightarrow>
                (case f of
                   0 \<Rightarrow> None
                 | Suc n \<Rightarrow>
                     (let st1 = abort st T Undefined
                      in if wants_replace to then replace n st1 loc None None
                         else push n st1 loc None None))
            | None \<Rightarrow> runQueue f st T ph q))"
| "push f st loc onComplete onAbort =
     transitionTo f st loc (Some (PushComplete onComplete)) onAbort"
| "replace f st loc onComplete onAbort =
     transitionTo f st loc (Some (ReplaceComplete onComplete)) onAbort"
| "transitionTo f st loc onComplete onAbort =
     (let r = (match (router st) loc (current st))\<lparr>rid := next_obj st\<rparr>;
          st1 = st\<lparr>next_obj := Suc (next_obj st)\<rparr>
      in confirmTransition f st1 r (TransitionToComplete onComplete)
           (Some (TransitionToAbort onAbort)))"
| "confirmTransition f st r onComplete onAbort =
     (let cur = current st;
          T = \<lparr>t_route = r, t_current = cur, t_onComplete = onComplete, t_onAbort = onAbort\<rparr>
      in if isSameRoute r cur \<and> length (matched r) = length (matched cur)
         then Some (abort (ensureURL st False) T Undefined)
         else (let qs = resolveQueue (matched (current st)) (matched r);
                   queue = build_queue st qs;
                   st1 = st\<lparr>pending := Some r\<rparr>
               in runQueue f st1 T (QueueA (activated qs)) queue))"
  by pat_completeness auto

termination
  by (relation "measures
        [case_sum (case_sum (case_sum fst fst) (case_sum fst fst))
                  (case_sum (case_sum fst fst) (case_sum fst fst)),
         case_sum (case_sum (case_sum (\<lambda>(f, st, T, ph, q). phase_rank ph)
                                      (\<lambda>(f, st, T, ph, q, g). phase_rank ph))
                            (case_sum (\<lambda>(f, st, T, ph, q, g, v). phase_rank ph)
                                      (\<lambda>(f, st, T, ph, q, v). phase_rank ph)))
                  (case_sum (case_sum (\<lambda>_. 4) (\<lambda>_. 4))
                            (case_sum (\<lambda>_. 3) (\<lambda>_. 2))),
         case_sum (case_sum (case_sum (\<lambda>(f, st, T, ph, q). 4 * length q)
                                      (\<lambda>(f, st, T, ph, q, g). 4 * length q + 3))
                            (case_sum (\<lambda>(f, st, T, ph, q, g, v). 4 * length q + 2)
                                      (\<lambda>(f, st, T, ph, q, v). 4 * length q + 1)))
                  (\<lambda>_. 0)]")
     auto

declare runQueue.simps [simp del] iterator.simps [simp del] guard_next.simps [simp del]
  resultHandler.simps [simp del] push.simps [simp del] replace.simps [simp del]
  transitionTo.simps [simp del] confirmTransition.simps [simp del]

lemmas machine_simps = runQueue.simps iterator.simps guard_next.simps
  resultHandler.simps push.simps replace.simps transitionTo.simps confirmTransition.simps

section \<open>AbstractHistory\<close>

text \<open>\<open>xs[i]\<close> for an integer index.\<close>

definition js_index_int :: "'a list \<Rightarrow> int \<Rightarrow> 'a option" where
  "js_index_int xs i = (if 0 \<le> i \<and> i < int (length xs) then Some (xs ! nat i) else None)"

definition go :: "nat \<Rightarrow> history \<Rightarrow> int \<Rightarrow> history option" where
  "go f st n =
     (let targetIndex = index st + n
      in if targetIndex < 0 \<or> targetIndex \<ge> int (length (stack st)) then Some st
         else (let r = stack st ! nat targetIndex
               in confirmTransition f st r (GoComplete targetIndex) None))"

definition getCurrentLocation :: "history \<Rightarrow> string" where
  "getCurrentLocation st =
     (case js_index_int (stack st) (int (length (stack st)) - 1) of
        Some c \<Rightarrow> fullPath c
      | None \<Rightarrow> ''/'')"

section \<open>Asynchronous guards and deferred callbacks\<close>

text \<open>
  A suspended guard calls its continuation with \<open>v\<close>, at some later time.
\<close>

definition resume :: "nat \<Rightarrow> history \<Rightarrow> continuation \<Rightarrow> js_val \<Rightarrow> history option" where
  "resume f st k v = guard_next f st (k_transition k) (k_phase k) (k_rest k) (k_guard k) v"

text \<open>
  \<open>isValid\<close> of a transition to the route \<open>r\<close>: \<open>() => this.current === route\<close>
  (the source declares it under the name \<open>isVal.id\<close> and uses it as \<open>isValid\<close>).
\<close>

definition isValid :: "history \<Rightarrow> nat \<Rightarrow> bool" where
  "isValid st r = (rid (current st) = r)"

text \<open>
  \<open>poll(cb, instances, key, isValid)\<close>: the instance map is read when the poll runs;
  \<open>setTimeout(\<dots>, 16)\<close> adds a timer.
\<close>

definition poll :: "history \<Rightarrow> post_cb \<Rightarrow> history" where
  "poll st p =
     (case instances st (pc_entry p) (pc_key p) of
        Some i \<Rightarrow> log st [Deliver (pc_cb p) i]
      | None \<Rightarrow>
          if isValid st (pc_route p) then st\<lparr>timers := timers st @ [(16, p)]\<rparr> else st)"

text \<open>The callback handed to \<open>$nextTick\<close> runs: \<open>postEnterCbs.forEach(cb => cb())\<close>.\<close>

definition run_nextTick :: "history \<Rightarrow> history" where
  "run_nextTick st =
     (case nextTick st of
        [] \<Rightarrow> st
      | cbs # rest \<Rightarrow> fold (\<lambda>p s. poll s p) (postEnterCbs st cbs) (st\<lparr>nextTick := rest\<rparr>))"

text \<open>The oldest timer fires.\<close>

definition fire_timer :: "history \<Rightarrow> history" where
  "fire_timer st =
     (case timers st of
        [] \<Rightarrow> st
      | (d, p) # rest \<Rightarrow> poll (st\<lparr>timers := rest\<rparr>) p)"

text \<open>A component instance registers itself on its route record (external).\<close>

definition register_instance :: "history \<Rightarrow> nat \<Rightarrow> key \<Rightarrow> inst \<Rightarrow> history" where
  "register_instance st m k i =
     st\<lparr>instances := (instances st)(m := (instances st m)(k := Some i))\<rparr>"

section \<open>Sequences of navigations and of continued guards\<close>

datatype nav_op =
    Push raw_location "callback option" "callback option"
  | Replace raw_location "callback option" "callback option"
  | Go int

fun exec_op :: "nat \<Rightarrow> history \<Rightarrow> nav_op \<Rightarrow> history option" where
  "exec_op f st (Push loc onComplete onAbort) = push f st loc onComplete onAbort"
| "exec_op f st (Replace loc onComplete onAbort) = replace f st loc onComplete onAbort"
| "exec_op f st (Go n) = go f st n"

fun exec_ops :: "nat \<Rightarrow> history \<Rightarrow> nav_op list \<Rightarrow> history option" where
  "exec_ops f st [] = Some st"
| "exec_ops f st (x # xs) =
     (case exec_op f st x of None \<Rightarrow> None | Some st1 \<Rightarrow> exec_ops f st1 xs)"

text \<open>
  What may happen to a history while a transition waits in a guard: a navigation is
  started, or a guard that had returned without calling its continuation (of this or of
  any other transition) calls it with a value.
\<close>

datatype act = Navigate nav_op | Continue continuation js_val

fun exec_act :: "nat \<Rightarrow> history \<Rightarrow> act \<Rightarrow> history option" where
  "exec_act f st (Navigate x) = exec_op f st x"
| "exec_act f st (Continue k v) = resume f st k v"

fun exec_acts :: "nat \<Rightarrow> history \<Rightarrow> act list \<Rightarrow> history option" where
  "exec_acts f st [] = Some st"
| "exec_acts f st (x # xs) =
     (case exec_act f st x of None \<Rightarrow> None | Some st1 \<Rightarrow> exec_acts f st1 xs)"

section \<open>Vocabulary of the properties\<close>

definition stack_inv :: "history \<Rightarrow> bool" where
  "stack_inv st = (- 1 \<le> index st \<and> index st \<le> int (length (stack st)) - 1)"

text \<open>The index that a transition started by \<open>go\<close> will store is inside the stack.\<close>

definition go_ok :: "transition \<Rightarrow> history \<Rightarrow> bool" where
  "go_ok T st =
     (case t_onComplete T of
        GoComplete i \<Rightarrow> 0 \<le> i \<and> i < int (length (stack st))
      | TransitionToComplete c \<Rightarrow> True)"

text \<open>
  A step that neither commits nor touches the pending slot, the stack or the cursor.
\<close>

definition quiet :: "history \<Rightarrow> history \<Rightarrow> bool" where
  "quiet st st' =
     (router st' = router st \<and> next_obj st \<le> next_obj st' \<and> (ready st \<longrightarrow> ready st') \<and>
      stack st' = stack st \<and> index st' = index st \<and> current st' = current st \<and>
      pending st' = pending st \<and>
      (\<exists>evs. trace st' = trace st @ evs \<and> (\<forall>r. OnComplete r \<notin> set evs)))"

text \<open>
  What a run of the machine may do to the history: the routes in \<open>A\<close> and routes created
  during the run are the only ones it may commit or leave pending.
\<close>

definition evolve :: "nat set \<Rightarrow> bool \<Rightarrow> history \<Rightarrow> history \<Rightarrow> bool" where
  "evolve A g st st' =
     (router st' = router st \<and> next_obj st \<le> next_obj st' \<and> (ready st \<longrightarrow> ready st') \<and>
      (stack_inv st \<and> g \<longrightarrow> stack_inv st') \<and>
      (\<exists>evs. trace st' = trace st @ evs \<and>
         (\<forall>r. OnComplete r \<in> set evs \<longrightarrow> r \<in> A \<or> next_obj st \<le> r) \<and>
         (current st' = current st \<or> OnComplete (rid (current st')) \<in> set evs)) \<and>
      (pending st' = pending st \<or> pending st' = None \<or>
         (\<exists>p. pending st' = Some p \<and> (rid p \<in> A \<or> next_obj st \<le> rid p))))"

text \<open>The routes a running transition may commit: its own, while it holds the pending slot.\<close>

definition own :: "transition \<Rightarrow> history \<Rightarrow> nat set" where
  "own T st = (if pending_is st (t_route T) then {rid (t_route T)} else {})"

text \<open>A commit: the completion callbacks of \<open>confirmTransition\<close>.\<close>

definition commits :: "route \<Rightarrow> bool \<Rightarrow> history \<Rightarrow> history \<Rightarrow> bool" where
  "commits r g st st' =
     (router st' = router st \<and> next_obj st' = next_obj st \<and> (ready st \<longrightarrow> ready st') \<and>
      (stack_inv st \<and> g \<longrightarrow> stack_inv st') \<and> pending st' = pending st \<and> current st' = r \<and>
      (\<exists>evs. trace st' = trace st @ evs \<and> (\<forall>x. OnComplete x \<notin> set evs)))"

text \<open>The calls that reach the per-call abort callback.\<close>

definition onAbort_calls :: "transition \<Rightarrow> js_val \<Rightarrow> event list" where
  "onAbort_calls T err =
     (case t_onAbort T of
        None \<Rightarrow> []
      | Some (TransitionToAbort u) \<Rightarrow>
          OnAbort (rid (t_route T)) err
          # (case u of None \<Rightarrow> [] | Some c \<Rightarrow> [UserOnAbort c err]))"

text \<open>No guard of the router ever answers with a redirect.\<close>

definition no_redirect :: "router \<Rightarrow> bool" where
  "no_redirect rt =
     ((\<forall>h to from v. behaviour rt h to from = Calls v \<longrightarrow> redirect_target v = None) \<and>
      (\<forall>ms to from v. resolveAsync rt ms to from = Calls v \<longrightarrow> redirect_target v = None))"

text \<open>
  A reflexive and transitive relation between histories that holds along each elementary
  step of the machine holds between the start and the end of every run.
\<close>

definition respected :: "(history \<Rightarrow> history \<Rightarrow> bool) \<Rightarrow> bool" where
  "respected R =
     ((\<forall>s. R s s) \<and> (\<forall>a b c. R a b \<longrightarrow> R b c \<longrightarrow> R a c) \<and>
      (\<forall>s T err. R s (abort s T err)) \<and>
      (\<forall>s T cbs. R s (finish s T cbs)) \<and>
      (\<forall>s b. R s (ensureURL s b)) \<and>
      (\<forall>s g a b. R s (log s [GuardCall g a b])) \<and>
      (\<forall>s k. R s (suspend s k)) \<and>
      (\<forall>s cbs p. R s (push_post_cb s cbs p)) \<and>
      (\<forall>s. R s (s\<lparr>next_obj := Suc (next_obj s),
            postEnterCbs := (postEnterCbs s)(next_obj s := [])\<rparr>)) \<and>
      (\<forall>s. R s (s\<lparr>next_obj := Suc (next_obj s)\<rparr>)) \<and>
      (\<forall>s r. R s (s\<lparr>pending := Some r\<rparr>)))"

text \<open>The calls that drain a ready queue: a queued ready callback called with a route, or
  a queued ready-error callback.\<close>

fun is_drain :: "event \<Rightarrow> bool" where
  "is_drain (ReadyCb c (Some r)) = True"
| "is_drain (ReadyErrorCb c e) = True"
| "is_drain e = False"

text \<open>Once the ready flag is set, a step keeps it and drains nothing.\<close>

definition steady :: "history \<Rightarrow> history \<Rightarrow> bool" where
  "steady st st' =
     (ready st \<longrightarrow> ready st' \<and>
        (\<exists>evs. trace st' = trace st @ evs \<and> filter is_drain evs = []))"

text \<open>The calls of the caller's \<open>onComplete\<close>.\<close>

definition tt_complete_calls :: "tt_complete option \<Rightarrow> route \<Rightarrow> event list" where
  "tt_complete_calls c r =
     (case c of
        None \<Rightarrow> []
      | Some (UserComplete u) \<Rightarrow> [UserOnComplete u (rid r)]
      | Some (PushComplete oc) \<Rightarrow>
          (case oc of Some u \<Rightarrow> [UserOnComplete u (rid r)] | None \<Rightarrow> [])
      | Some (ReplaceComplete oc) \<Rightarrow>
          (case oc of Some u \<Rightarrow> [UserOnComplete u (rid r)] | None \<Rightarrow> []))"

text \<open>The calls of \<open>updateRoute\<close>.\<close>

definition updateRoute_calls :: "history \<Rightarrow> route \<Rightarrow> event list" where
  "updateRoute_calls st r =
     (case cb st of Some c \<Rightarrow> [Listener c (rid r)] | None \<Rightarrow> [])
     @ concat (map (\<lambda>h. case h of Some h' \<Rightarrow> [AfterHook h' (rid r) (rid (current st))]
                                 | None \<Rightarrow> [])
                (afterHooks (router st)))"

text \<open>The history after a silent abort of the transition \<open>T\<close>.\<close>

definition silently_aborted :: "transition \<Rightarrow> history \<Rightarrow> history \<Rightarrow> bool" where
  "silently_aborted T st st' =
     (trace st' = trace st @ onAbort_calls T Undefined \<and> current st' = current st \<and>
      pending st' = pending st \<and> ready st' = ready st \<and> stack st' = stack st \<and>
      index st' = index st \<and> suspended st' = suspended st)"

text \<open>
  Route objects enter the stack on the commit path only: every route in the stack of
  \<open>st'\<close> was in the stack of \<open>st\<close>, or the completion callback of its transition was
  called in between.
\<close>

definition stacked :: "history \<Rightarrow> history \<Rightarrow> bool" where
  "stacked st st' =
     (\<exists>evs. trace st' = trace st @ evs \<and>
        (\<forall>x \<in> set (stack st'). x \<in> set (stack st) \<or> OnComplete (rid x) \<in> set evs))"

section \<open>Example routers and histories\<close>

definition ent :: "nat \<Rightarrow> entry" where
  "ent n = \<lparr>eid = n, beforeEnter = None, components = []\<rparr>"

definition demo_route :: "string \<Rightarrow> route" where
  "demo_route p = \<lparr>rid = 0, path = p, query = [], hash = [], fullPath = p, matched = [ent 1]\<rparr>"

fun demo_match :: "raw_location \<Rightarrow> route \<Rightarrow> route" where
  "demo_match (LocString s) cur = demo_route s"
| "demo_match (LocObject l) cur = demo_route (case lo_path l of Some p \<Rightarrow> p | None \<Rightarrow> ''/'')"

text \<open>A router without guards.\<close>

definition plain_router :: router where
  "plain_router = \<lparr>beforeHooks = [], resolveHooks = [], afterHooks = [], app = False,
     match = demo_match, behaviour = (\<lambda>h to from. Calls Undefined),
     resolveAsync = (\<lambda>ms to from. Calls Undefined)\<rparr>"

text \<open>A router whose only guard, a global before hook, answers \<open>next(false)\<close>.\<close>

definition veto_router :: router where
  "veto_router = plain_router\<lparr>beforeHooks := [1],
     behaviour := (\<lambda>h to from. Calls (Bool False))\<rparr>"

definition veto_transition :: transition where
  "veto_transition = \<lparr>t_route = (demo_route ''/a'')\<lparr>rid := 1\<rparr>, t_current = START,
     t_onComplete = TransitionToComplete None,
     t_onAbort = Some (TransitionToAbort (Some 5))\<rparr>"

text \<open>The history after a first navigation to \<open>/a\<close>, on the router without guards.\<close>

definition at_a :: history where
  "at_a = the (push 0 (init plain_router) (LocString ''/a'') None None)"

definition scenario_ab :: "nat \<Rightarrow> history option" where
  "scenario_ab f = exec_ops f (init plain_router)
     [Push (LocString ''/a'') None None, Push (LocString ''/b'') None None, Go (- 1)]"

text \<open>
  A router whose global before hook throws on the way to \<open>/a\<close> and lets every other
  navigation pass.
\<close>

definition failing_router :: router where
  "failing_router = plain_router\<lparr>beforeHooks := [1],
     behaviour := (\<lambda>h to from. if fullPath to = ''/a'' then Throws (Error 5)
                                 else Calls Undefined)\<rparr>"

text \<open>
  A router with one route record whose component declares a \<open>beforeRouteEnter\<close> guard;
  the guard passes the function 9 to its continuation. The router has an app.
\<close>

definition enter_entry :: entry where
  "enter_entry = \<lparr>eid = 1, beforeEnter = None,
     components = [(''default'', \<lparr>beforeRouteLeave = NoGuard, beforeRouteUpdate = NoGuard,
                                  beforeRouteEnter = OneGuard 1\<rparr>)]\<rparr>"

definition enter_router :: router where
  "enter_router = \<lparr>beforeHooks = [], resolveHooks = [], afterHooks = [], app = True,
     match = (\<lambda>loc cur. (demo_match loc cur)\<lparr>matched := [enter_entry]\<rparr>),
     behaviour = (\<lambda>h to from. Calls (Fun 9)),
     resolveAsync = (\<lambda>ms to from. Calls Undefined)\<rparr>"

definition entered :: history where
  "entered = run_nextTick (the (push 0 (init enter_router) (LocString ''/a'') None None))"

definition waiting :: post_cb where
  "waiting = \<lparr>pc_cb = 9, pc_entry = 1, pc_key = ''default'', pc_route = 1\<rparr>"

text \<open>
  A router whose global before hook lets the navigation to \<open>/y\<close> pass, and the three
  kinds of redirect target that send a navigation to \<open>/x\<close> there.
\<close>

definition redirect_router :: router where
  "redirect_router = plain_router\<lparr>beforeHooks := [1],
     behaviour := (\<lambda>h to from. if fullPath to = ''/y'' then Calls Undefined
                                 else Calls (Obj \<lparr>lo_path = Some ''/y'', lo_name = None,
                                                   lo_replace = True\<rparr>))\<rparr>"

definition to_x :: transition where
  "to_x = \<lparr>t_route = (demo_route ''/x'')\<lparr>rid := 1\<rparr>, t_current = START,
     t_onComplete = TransitionToComplete (Some (PushComplete None)),
     t_onAbort = Some (TransitionToAbort (Some 5))\<rparr>"

definition going_to_x :: history where
  "going_to_x = (init redirect_router)\<lparr>next_obj := 2, pending := Some (t_route to_x)\<rparr>"

definition y_replacing :: location_obj where
  "y_replacing = \<lparr>lo_path = Some ''/y'', lo_name = None, lo_replace = True\<rparr>"

definition y_pushing :: location_obj where
  "y_pushing = \<lparr>lo_path = Some ''/y'', lo_name = None, lo_replace = False\<rparr>"

definition redirected :: "js_val \<Rightarrow> (string \<times> nat \<times> nat list \<times> int \<times> event list) option" where
  "redirected to = map_option
     (\<lambda>s. (fullPath (current s), rid (current s), map rid (stack s), index s, trace s))
     (guard_next 1 going_to_x to_x (QueueA [ent 1]) [] (Plain 1) to)"

text \<open>
  A router whose global before hook is asynchronous on the way to \<open>/a\<close> (it returns
  without calling its continuation) and lets every other navigation pass.
\<close>

definition async_router :: router where
  "async_router = plain_router\<lparr>beforeHooks := [1],
     behaviour := (\<lambda>h to from. if fullPath to = ''/a'' then Suspends else Calls Undefined)\<rparr>"

text \<open>
  A navigation to \<open>/a\<close> waits in its guard; a second navigation, to \<open>/b\<close>, takes the pending
  slot and completes.
\<close>

definition overtaken :: history where
  "overtaken = the (Option.bind
     (push 0 (onError (init async_router) 7) (LocString ''/a'') (Some 4) (Some 5))
     (\<lambda>s. push 0 s (LocString ''/b'') None None))"

definition waiting_a :: continuation where
  "waiting_a = \<lparr>k_transition = \<lparr>t_route = (demo_route ''/a'')\<lparr>rid := 1\<rparr>, t_current = START,
       t_onComplete = TransitionToComplete (Some (PushComplete (Some 4))),
       t_onAbort = Some (TransitionToAbort (Some 5))\<rparr>,
     k_phase = QueueA [ent 1], k_rest = [None, Some (AsyncStep [ent 1])],
     k_guard = Plain 1\<rparr>"

text \<open>
  A router whose global before hook is asynchronous on the way back to \<open>/a\<close> (from any
  route but the initial one) and lets every other navigation pass.
\<close>

definition back_router :: router where
  "back_router = plain_router\<lparr>beforeHooks := [1],
     behaviour := (\<lambda>h to from. if fullPath to = ''/a'' \<and> fullPath from \<noteq> ''/''
                                 then Suspends else Calls Undefined)\<rparr>"

text \<open>
  After navigations to \<open>/a\<close> and \<open>/b\<close>, \<open>go(-1)\<close> waits in its guard; a navigation to \<open>/c\<close>
  takes the pending slot and completes; \<open>go(-2)\<close> then starts a transition to the same
  stored route object and waits in its guard too.
\<close>

definition went_back :: history where
  "went_back = the (exec_ops 0 (init back_router)
     [Push (LocString ''/a'') None None, Push (LocString ''/b'') None None, Go (- 1)])"

definition going_back :: continuation where
  "going_back = \<lparr>k_transition = \<lparr>t_route = (demo_route ''/a'')\<lparr>rid := 1\<rparr>,
       t_current = (demo_route ''/b'')\<lparr>rid := 3\<rparr>,
       t_onComplete = GoComplete 0, t_onAbort = None\<rparr>,
     k_phase = QueueA [], k_rest = [Some (AsyncStep [])], k_guard = Plain 1\<rparr>"

definition moved_on :: history where
  "moved_on = the (push 0 went_back (LocString ''/c'') None None)"

definition back_again :: history where
  "back_again = the (go 0 moved_on (- 2))"

text \<open>
  The overtaken navigation to \<open>/a\<close>: its guard calls the continuation, \<open>go(0)\<close> and a
  navigation to \<open>/c\<close> follow, and the guard calls the continuation once more.
\<close>

definition afterwards :: "act list" where
  "afterwards = [Continue waiting_a Undefined, Navigate (Go 0),
     Navigate (Push (LocString ''/c'') None None), Continue waiting_a (Fun 9)]"

text \<open>The history after navigations to \<open>/a\<close> and then \<open>/b\<close>, on the router without guards.\<close>

definition at_b :: history where
  "at_b = the (exec_ops 0 (init plain_router)
     [Push (LocString ''/a'') None None, Push (LocString ''/b'') None None])"

text \<open>The history in which a navigation to \<open>/a\<close> waits in its asynchronous guard.\<close>

definition held :: history where
  "held = the (push 0 (init async_router) (LocString ''/a'') (Some 4) (Some 5))"

section \<open>Properties of resolveQueue\<close>

lemma resolveQueue_loop_lcp:
  assumes "i \<le> length cur" "i \<le> length nxt"
  shows "resolveQueue_loop cur nxt (max (length cur) (length nxt)) i =
         i + length (longest_common_prefix (map eid (drop i cur)) (map eid (drop i nxt)))"
  using assms
proof (induction cur nxt "max (length cur) (length nxt)" i rule: resolveQueue_loop.induct)
  case (1 cur nxt i)
  show ?case
  proof (cases "i < length cur")
    case c: True
    show ?thesis
    proof (cases "i < length nxt")
      case n: True
      have dc: "drop i cur = cur ! i # drop (Suc i) cur"
        using c by (simp add: Cons_nth_drop_Suc)
      have dn: "drop i nxt = nxt ! i # drop (Suc i) nxt"
        using n by (simp add: Cons_nth_drop_Suc)
      show ?thesis
      proof (cases "eid (cur ! i) = eid (nxt ! i)")
        case True
        then have "\<not> entry_neq (js_index cur i) (js_index nxt i)"
          using c n by (simp add: entry_neq_def js_index_def)
        moreover have "i < max (length cur) (length nxt)" using c by simp
        ultimately show ?thesis
          using "1.hyps" c n True
          by (subst resolveQueue_loop.simps) (simp add: dc dn)
      next
        case False
        then have "entry_neq (js_index cur i) (js_index nxt i)"
          using c n by (simp add: entry_neq_def js_index_def)
        then show ?thesis
          using c False
          by (subst resolveQueue_loop.simps) (simp add: dc dn)
      qed
    next
      case False
      with "1.prems" have n: "i = length nxt" by simp
      then have "entry_neq (js_index cur i) (js_index nxt i)"
        using c by (simp add: entry_neq_def js_index_def)
      then show ?thesis
        using c n by (subst resolveQueue_loop.simps) simp
    qed
  next
    case False
    with "1.prems" have c: "i = length cur" by simp
    show ?thesis
    proof (cases "i < length nxt")
      case True
      then have "entry_neq (js_index cur i) (js_index nxt i)"
        using c by (simp add: entry_neq_def js_index_def)
      then show ?thesis
        using c True by (subst resolveQueue_loop.simps) simp
    next
      case False
      with "1.prems" have "i = length nxt" by simp
      then show ?thesis
        using c by (subst resolveQueue_loop.simps) simp
    qed
  qed
qed

lemma resolveQueue_loop_0:
  "resolveQueue_loop cur nxt (max (length cur) (length nxt)) 0 =
   length (longest_common_prefix (map eid cur) (map eid nxt))"
  using resolveQueue_loop_lcp [of 0 cur nxt] by simp

lemma lcp_length_le:
  "length (longest_common_prefix xs ys) \<le> length xs"
  "length (longest_common_prefix xs ys) \<le> length ys"
  by (induction xs ys rule: longest_common_prefix.induct) auto

lemma lcp_nth:
  "j < length (longest_common_prefix xs ys) \<Longrightarrow> xs ! j = ys ! j"
proof (induction xs ys arbitrary: j rule: longest_common_prefix.induct)
  case (1 x xs y ys)
  then show ?case by (cases j) (auto split: if_splits)
qed auto

lemma lcp_stop:
  "length (longest_common_prefix xs ys) < length xs \<Longrightarrow>
   length (longest_common_prefix xs ys) < length ys \<Longrightarrow>
   xs ! length (longest_common_prefix xs ys) \<noteq> ys ! length (longest_common_prefix xs ys)"
  by (induction xs ys rule: longest_common_prefix.induct) (auto split: if_splits)

lemma lcp_take:
  "take (length (longest_common_prefix xs ys)) ys = longest_common_prefix xs ys"
  by (induction xs ys rule: longest_common_prefix.induct) auto

text \<open>
  C2. For all lists \<open>current\<close> and \<open>nxt\<close> of route records, \<open>resolveQueue\<close> returns
  \<open>updated = nxt[0:i]\<close>, \<open>activated = nxt[i:]\<close> and \<open>deactivated = current[i:]\<close>, where
  \<open>i\<close> is the first index at which \<open>current[i]\<close> and \<open>nxt[i]\<close> differ by identity
  (every index below \<open>i\<close> agrees, and index \<open>i\<close> differs when
  \<open>i < max (length cur) (length nxt)\<close>), or the common length when no index
  differs. \<open>updated\<close> is the longest common prefix by identity.
\<close>

theorem resolveQueue_prefix_stable:
  fixes cur nxt :: "entry list"
  defines "i \<equiv> length (longest_common_prefix (map eid cur) (map eid nxt))"
  shows "resolveQueue cur nxt =
           \<lparr>updated = take i nxt, activated = drop i nxt, deactivated = drop i cur\<rparr>
         \<and> (\<forall>j < i. \<not> entry_neq (js_index cur j) (js_index nxt j))
         \<and> (i < max (length cur) (length nxt) \<longrightarrow>
              entry_neq (js_index cur i) (js_index nxt i))
         \<and> (i = max (length cur) (length nxt) \<longrightarrow>
              i = length cur \<and> i = length nxt)
         \<and> map eid (updated (resolveQueue cur nxt)) =
             longest_common_prefix (map eid cur) (map eid nxt)
         \<and> updated (resolveQueue cur nxt) @ activated (resolveQueue cur nxt) = nxt
         \<and> take i cur @ deactivated (resolveQueue cur nxt) = cur"
proof -
  define cs where "cs = map eid cur"
  define ns where "ns = map eid nxt"
  have i: "i = length (longest_common_prefix cs ns)"
    by (simp only: i_def cs_def ns_def)
  have len: "length cs = length cur" "length ns = length nxt"
    by (simp_all add: cs_def ns_def)
  have le: "i \<le> length cur" "i \<le> length nxt"
    using lcp_length_le [of cs ns] by (simp_all only: i len)
  have rq: "resolveQueue cur nxt =
      \<lparr>updated = take i nxt, activated = drop i nxt, deactivated = drop i cur\<rparr>"
    by (simp only: resolveQueue_def resolveQueue_loop_0 i_def Let_def)
  have agree: "\<forall>j < i. \<not> entry_neq (js_index cur j) (js_index nxt j)"
  proof (intro allI impI)
    fix j assume j: "j < i"
    then have "cs ! j = ns ! j"
      unfolding i by (rule lcp_nth)
    moreover have "j < length cur" "j < length nxt"
      using j le by simp_all
    ultimately show "\<not> entry_neq (js_index cur j) (js_index nxt j)"
      by (simp add: entry_neq_def js_index_def cs_def ns_def)
  qed
  have differ: "i < max (length cur) (length nxt) \<longrightarrow>
      entry_neq (js_index cur i) (js_index nxt i)"
  proof
    assume lt: "i < max (length cur) (length nxt)"
    show "entry_neq (js_index cur i) (js_index nxt i)"
    proof (cases "i < length cur \<and> i < length nxt")
      case True
      then have "i < length cs" "i < length ns"
        by (simp_all only: len)
      then have "cs ! i \<noteq> ns ! i"
        unfolding i by (rule lcp_stop)
      then show ?thesis
        using True by (simp add: entry_neq_def js_index_def cs_def ns_def)
    next
      case False
      with lt le consider "i = length cur" "i < length nxt"
        | "i = length nxt" "i < length cur"
        by (cases "length cur \<le> length nxt") (simp_all add: max_def)
      then show ?thesis
      proof cases
        case 1
        then have "js_index cur i = None" "js_index nxt i = Some (nxt ! i)"
          by (simp_all add: js_index_def)
        then show ?thesis by (simp add: entry_neq_def)
      next
        case 2
        then have "js_index nxt i = None" "js_index cur i = Some (cur ! i)"
          by (simp_all add: js_index_def)
        then show ?thesis by (simp add: entry_neq_def)
      qed
    qed
  qed
  have full: "i = max (length cur) (length nxt) \<longrightarrow> i = length cur \<and> i = length nxt"
    using le by auto
  have upd: "map eid (updated (resolveQueue cur nxt)) =
      longest_common_prefix (map eid cur) (map eid nxt)"
  proof -
    have "updated (resolveQueue cur nxt) = take i nxt"
      by (simp add: rq)
    then have "map eid (updated (resolveQueue cur nxt)) = take i ns"
      by (simp only: take_map ns_def)
    also have "\<dots> = longest_common_prefix cs ns"
      unfolding i by (rule lcp_take)
    finally show ?thesis
      by (simp only: cs_def ns_def)
  qed
  have app: "updated (resolveQueue cur nxt) @ activated (resolveQueue cur nxt) = nxt"
    by (simp add: rq)
  have dea: "take i cur @ deactivated (resolveQueue cur nxt) = cur"
    by (simp add: rq)
  show ?thesis
    using rq agree differ full upd app dea by (intro conjI) assumption+
qed

theorem resolveQueue_prefix_stable_witness:
  "resolveQueue [ent 1, ent 2, ent 3] [ent 1, ent 2, ent 4, ent 5] =
     \<lparr>updated = [ent 1, ent 2], activated = [ent 4, ent 5], deactivated = [ent 3]\<rparr>
   \<and> entry_neq (js_index [ent 1, ent 2, ent 3] 2) (js_index [ent 1, ent 2, ent 4, ent 5] 2)
   \<and> \<not> entry_neq (js_index [ent 1, ent 2, ent 3] 1) (js_index [ent 1, ent 2, ent 4, ent 5] 1)"
  using resolveQueue_prefix_stable [of "[ent 1, ent 2, ent 3]" "[ent 1, ent 2, ent 4, ent 5]"]
  by (simp add: ent_def entry_neq_def js_index_def)

section \<open>Invariants of the transition machine\<close>

lemma quietI:
  assumes "router st' = router st" "next_obj st \<le> next_obj st'" "ready st \<Longrightarrow> ready st'"
    "stack st' = stack st" "index st' = index st" "current st' = current st"
    "pending st' = pending st" "trace st' = trace st @ evs" "\<And>r. OnComplete r \<notin> set evs"
  shows "quiet st st'"
  unfolding quiet_def using assms by blast

lemma quietE:
  assumes "quiet st st'"
  obtains evs where "router st' = router st" "next_obj st \<le> next_obj st'"
    "ready st \<Longrightarrow> ready st'"
    "stack st' = stack st" "index st' = index st" "current st' = current st"
    "pending st' = pending st" "trace st' = trace st @ evs" "\<And>r. OnComplete r \<notin> set evs"
  using assms unfolding quiet_def by blast

lemma evolveI:
  assumes "router st' = router st" "next_obj st \<le> next_obj st'" "ready st \<Longrightarrow> ready st'"
    "stack_inv st \<Longrightarrow> g \<Longrightarrow> stack_inv st'"
    "trace st' = trace st @ evs"
    "\<And>r. OnComplete r \<in> set evs \<Longrightarrow> r \<in> A \<or> next_obj st \<le> r"
    "current st' = current st \<or> OnComplete (rid (current st')) \<in> set evs"
    "pending st' = pending st \<or> pending st' = None \<or>
       (\<exists>p. pending st' = Some p \<and> (rid p \<in> A \<or> next_obj st \<le> rid p))"
  shows "evolve A g st st'"
  unfolding evolve_def using assms by blast

lemma evolveE:
  assumes "evolve A g st st'"
  obtains evs where "router st' = router st" "next_obj st \<le> next_obj st'"
    "ready st \<Longrightarrow> ready st'"
    "stack_inv st \<Longrightarrow> g \<Longrightarrow> stack_inv st'"
    "trace st' = trace st @ evs"
    "\<And>r. OnComplete r \<in> set evs \<Longrightarrow> r \<in> A \<or> next_obj st \<le> r"
    "current st' = current st \<or> OnComplete (rid (current st')) \<in> set evs"
    "pending st' = pending st \<or> pending st' = None \<or>
       (\<exists>p. pending st' = Some p \<and> (rid p \<in> A \<or> next_obj st \<le> rid p))"
  using assms unfolding evolve_def by blast

lemma quiet_refl: "quiet st st"
  by (rule quietI [where evs = "[]"]) simp_all

lemma quiet_trans:
  assumes "quiet a b" "quiet b c"
  shows "quiet a c"
proof -
  from assms(1) obtain e1 where 1: "router b = router a" "next_obj a \<le> next_obj b"
    "ready a \<Longrightarrow> ready b" "stack b = stack a" "index b = index a" "current b = current a"
    "pending b = pending a" "trace b = trace a @ e1" "\<And>r. OnComplete r \<notin> set e1"
    unfolding quiet_def by blast
  from assms(2) obtain e2 where 2: "router c = router b" "next_obj b \<le> next_obj c"
    "ready b \<Longrightarrow> ready c" "stack c = stack b" "index c = index b" "current c = current b"
    "pending c = pending b" "trace c = trace b @ e2" "\<And>r. OnComplete r \<notin> set e2"
    unfolding quiet_def by blast
  show ?thesis
  proof (rule quietI [where evs = "e1 @ e2"])
    show "next_obj a \<le> next_obj c" using 1(2) 2(2) by (rule le_trans)
    show "ready c" if "ready a" using that 1(3) 2(3) by blast
    show "OnComplete r \<notin> set (e1 @ e2)" for r using 1(9) 2(9) by simp
  qed (simp_all add: 1 2)
qed

lemma quiet_log: "(\<And>r. OnComplete r \<notin> set evs) \<Longrightarrow> quiet st (log st evs)"
  by (rule quietI [where evs = evs]) (simp_all add: log_def)

lemma quiet_ensureURL: "quiet st (ensureURL st b)"
  unfolding ensureURL_def by (rule quiet_log) simp

lemma quiet_ready: "quiet st (st\<lparr>ready := True\<rparr>)"
  by (rule quietI [where evs = "[]"]) simp_all

lemma quiet_call_onAbort: "quiet st (call_onAbort st oa err)"
proof (cases oa)
  case (TransitionToAbort u)
  define st1 where "st1 = (case u of Some c \<Rightarrow> log st [UserOnAbort c err] | None \<Rightarrow> st)"
  have q1: "quiet st st1"
    unfolding st1_def by (cases u) (auto intro!: quiet_log quiet_refl)
  have q2: "quiet st1 (log (st1\<lparr>ready := True\<rparr>) (map (\<lambda>c. ReadyErrorCb c err) (readyErrorCbs st1)))"
    by (rule quiet_trans [OF quiet_ready]) (rule quiet_log, auto)
  have "quiet st1 (if truthy err \<and> \<not> ready st1
         then log (st1\<lparr>ready := True\<rparr>) (map (\<lambda>c. ReadyErrorCb c err) (readyErrorCbs st1))
         else st1)"
    using q2 by (simp add: quiet_refl)
  with q1 show ?thesis
    unfolding TransitionToAbort call_onAbort.simps Let_def st1_def [symmetric]
    by (rule quiet_trans)
qed

lemma quiet_abort: "quiet st (abort st T err)"
proof -
  define st1 where "st1 = (if isError err then
                   (if errorCbs st \<noteq> [] then log st (map (\<lambda>c. ErrorCb c err) (errorCbs st))
                    else log st [Warn err])
                 else st)"
  have q1: "quiet st st1"
    unfolding st1_def by (auto intro!: quiet_log quiet_refl)
  have "quiet st1 (case t_onAbort T of
           Some onAbort \<Rightarrow> call_onAbort (log st1 [OnAbort (rid (t_route T)) err]) onAbort err
         | None \<Rightarrow> st1)"
  proof (cases "t_onAbort T")
    case None
    then show ?thesis by (simp add: quiet_refl)
  next
    case (Some oa)
    have "quiet st1 (log st1 [OnAbort (rid (t_route T)) err])"
      by (rule quiet_log) simp
    then show ?thesis
      unfolding Some option.case by (rule quiet_trans) (rule quiet_call_onAbort)
  qed
  with q1 show ?thesis
    unfolding abort_def Let_def st1_def [symmetric] by (rule quiet_trans)
qed

lemma quiet_suspend: "quiet st (suspend st k)"
  by (rule quietI [where evs = "[]"]) (simp_all add: suspend_def)

lemma quiet_push_post_cb: "quiet st (push_post_cb st cbs p)"
  by (rule quietI [where evs = "[]"]) (simp_all add: push_post_cb_def)

lemma quiet_pending_is: "quiet st st' \<Longrightarrow> pending_is st' r = pending_is st r"
  by (erule quietE) (simp add: pending_is_def)

lemma quiet_go_ok: "quiet st st' \<Longrightarrow> go_ok T st' = go_ok T st"
  by (erule quietE) (simp add: go_ok_def split: complete_cb.splits)

lemma quiet_stack_inv: "quiet st st' \<Longrightarrow> stack_inv st' = stack_inv st"
  by (erule quietE) (simp add: stack_inv_def)

lemma quiet_evolve:
  assumes "quiet a b" "evolve A g b c"
  shows "evolve A g a c"
proof -
  from assms(1) obtain e1 where 1: "router b = router a" "next_obj a \<le> next_obj b"
    "ready a \<Longrightarrow> ready b" "stack b = stack a" "index b = index a" "current b = current a"
    "pending b = pending a" "trace b = trace a @ e1" "\<And>r. OnComplete r \<notin> set e1"
    unfolding quiet_def by blast
  from assms(2) obtain e2 where 2: "router c = router b" "next_obj b \<le> next_obj c"
    "ready b \<Longrightarrow> ready c" "stack_inv b \<Longrightarrow> g \<Longrightarrow> stack_inv c" "trace c = trace b @ e2"
    "\<And>r. OnComplete r \<in> set e2 \<Longrightarrow> r \<in> A \<or> next_obj b \<le> r"
    "current c = current b \<or> OnComplete (rid (current c)) \<in> set e2"
    "pending c = pending b \<or> pending c = None \<or>
       (\<exists>p. pending c = Some p \<and> (rid p \<in> A \<or> next_obj b \<le> rid p))"
    unfolding evolve_def by blast
  show ?thesis
  proof (rule evolveI [where evs = "e1 @ e2"])
    show "router c = router a" by (simp add: 1 2)
    show "next_obj a \<le> next_obj c" using 1(2) 2(2) by (rule le_trans)
    show "ready c" if "ready a" using that 1(3) 2(3) by blast
    show "stack_inv c" if "stack_inv a" g
      using that 2(4) quiet_stack_inv [OF assms(1)] by blast
    show "trace c = trace a @ e1 @ e2" by (simp add: 1 2)
    show "r \<in> A \<or> next_obj a \<le> r" if "OnComplete r \<in> set (e1 @ e2)" for r
    proof -
      from that 1(9) have "OnComplete r \<in> set e2" by simp
      then have "r \<in> A \<or> next_obj b \<le> r" by (rule 2(6))
      with 1(2) show ?thesis by linarith
    qed
    show "current c = current a \<or> OnComplete (rid (current c)) \<in> set (e1 @ e2)"
      using 2(7) 1(6) by auto
    show "pending c = pending a \<or> pending c = None \<or>
       (\<exists>p. pending c = Some p \<and> (rid p \<in> A \<or> next_obj a \<le> rid p))"
      using 2(8) 1(7) 1(2) by (metis le_trans)
  qed
qed

lemma evolve_quiet:
  assumes "evolve A g a b" "quiet b c"
  shows "evolve A g a c"
proof -
  from assms(1) obtain e1 where 1: "router b = router a" "next_obj a \<le> next_obj b"
    "ready a \<Longrightarrow> ready b" "stack_inv a \<Longrightarrow> g \<Longrightarrow> stack_inv b" "trace b = trace a @ e1"
    "\<And>r. OnComplete r \<in> set e1 \<Longrightarrow> r \<in> A \<or> next_obj a \<le> r"
    "current b = current a \<or> OnComplete (rid (current b)) \<in> set e1"
    "pending b = pending a \<or> pending b = None \<or>
       (\<exists>p. pending b = Some p \<and> (rid p \<in> A \<or> next_obj a \<le> rid p))"
    unfolding evolve_def by blast
  from assms(2) obtain e2 where 2: "router c = router b" "next_obj b \<le> next_obj c"
    "ready b \<Longrightarrow> ready c" "stack c = stack b" "index c = index b" "current c = current b"
    "pending c = pending b" "trace c = trace b @ e2" "\<And>r. OnComplete r \<notin> set e2"
    unfolding quiet_def by blast
  show ?thesis
  proof (rule evolveI [where evs = "e1 @ e2"])
    show "router c = router a" by (simp add: 1 2)
    show "next_obj a \<le> next_obj c" using 1(2) 2(2) by (rule le_trans)
    show "ready c" if "ready a" using that 1(3) 2(3) by blast
    show "stack_inv c" if "stack_inv a" g
      using that 1(4) quiet_stack_inv [OF assms(2)] by blast
    show "trace c = trace a @ e1 @ e2" by (simp add: 1 2)
    show "r \<in> A \<or> next_obj a \<le> r" if "OnComplete r \<in> set (e1 @ e2)" for r
    proof -
      from that 2(9) have "OnComplete r \<in> set e1" by simp
      then show ?thesis by (rule 1(6))
    qed
    show "current c = current a \<or> OnComplete (rid (current c)) \<in> set (e1 @ e2)"
      using 1(7) 2(6) by auto
    show "pending c = pending a \<or> pending c = None \<or>
       (\<exists>p. pending c = Some p \<and> (rid p \<in> A \<or> next_obj a \<le> rid p))"
      using 1(8) 2(7) by simp
  qed
qed

lemma quiet_imp_evolve:
  assumes "quiet st st'"
  shows "evolve A g st st'"
proof -
  from assms obtain evs where 1: "router st' = router st" "next_obj st \<le> next_obj st'"
    "ready st \<Longrightarrow> ready st'"
    "stack st' = stack st" "index st' = index st" "current st' = current st"
    "pending st' = pending st" "trace st' = trace st @ evs" "\<And>r. OnComplete r \<notin> set evs"
    unfolding quiet_def by blast
  show ?thesis
  proof (rule evolveI [where evs = evs])
    show "stack_inv st'" if "stack_inv st" using that quiet_stack_inv [OF assms] by simp
  qed (simp_all add: 1)
qed

lemma evolve_weaken:
  assumes "evolve A g st st'" "\<And>r. r \<in> A \<Longrightarrow> r \<in> B \<or> next_obj st \<le> r" "g' \<Longrightarrow> g"
  shows "evolve B g' st st'"
proof -
  from assms(1) obtain evs where 1: "router st' = router st" "next_obj st \<le> next_obj st'"
    "ready st \<Longrightarrow> ready st'"
    "stack_inv st \<Longrightarrow> g \<Longrightarrow> stack_inv st'"
    "trace st' = trace st @ evs"
    "\<And>r. OnComplete r \<in> set evs \<Longrightarrow> r \<in> A \<or> next_obj st \<le> r"
    "current st' = current st \<or> OnComplete (rid (current st')) \<in> set evs"
    "pending st' = pending st \<or> pending st' = None \<or>
       (\<exists>p. pending st' = Some p \<and> (rid p \<in> A \<or> next_obj st \<le> rid p))"
    unfolding evolve_def by blast
  show ?thesis
  proof (rule evolveI [where evs = evs])
    show "stack_inv st'" if "stack_inv st" g' using that 1(4) assms(3) by blast
    show "r \<in> B \<or> next_obj st \<le> r" if "OnComplete r \<in> set evs" for r
      using 1(6) [OF that] assms(2) by blast
    show "pending st' = pending st \<or> pending st' = None \<or>
       (\<exists>p. pending st' = Some p \<and> (rid p \<in> B \<or> next_obj st \<le> rid p))"
      using 1(8) assms(2) by blast
  qed (simp_all add: 1)
qed

lemma quiet_step:
  assumes "quiet st st1" "evolve (own T st1) (go_ok T st1) st1 st'"
  shows "evolve (own T st) (go_ok T st) st st'"
proof -
  have "own T st1 = own T st" "go_ok T st1 = go_ok T st"
    using assms(1) by (simp_all add: own_def quiet_pending_is quiet_go_ok)
  with assms show ?thesis by (simp add: quiet_evolve)
qed

lemma js_slice0_length:
  "length (js_slice0 xs e) = (if e < 0 then nat (max (int (length xs) + e) 0)
                              else nat (min e (int (length xs))))"
  by (simp add: js_slice0_def Let_def)

lemma stack_inv_push:
  assumes "stack_inv st"
  shows "stack_inv (st\<lparr>stack := js_slice0 (stack st) (index st + 1) @ [r],
                       index := index st + 1\<rparr>)"
  using assms by (simp add: stack_inv_def js_slice0_length)

lemma stack_inv_replace:
  assumes "stack_inv st"
  shows "stack_inv (st\<lparr>stack := js_slice0 (stack st) (index st) @ [r]\<rparr>)"
  using assms by (auto simp add: stack_inv_def js_slice0_length max_def)

lemma updateRoute_fields:
  "router (updateRoute st r) = router st" "next_obj (updateRoute st r) = next_obj st"
  "ready (updateRoute st r) = ready st" "stack (updateRoute st r) = stack st"
  "index (updateRoute st r) = index st" "pending (updateRoute st r) = pending st"
  "current (updateRoute st r) = r" "readyCbs (updateRoute st r) = readyCbs st"
  by (simp_all add: updateRoute_def Let_def log_def split: option.splits)

lemma updateRoute_trace:
  "trace (updateRoute st r) = trace st
     @ (case cb st of Some c \<Rightarrow> [Listener c (rid r)] | None \<Rightarrow> [])
     @ concat (map (\<lambda>h. case h of Some h' \<Rightarrow> [AfterHook h' (rid r) (rid (current st))]
                                 | None \<Rightarrow> [])
                (afterHooks (router st)))"
  by (simp add: updateRoute_def Let_def log_def split: option.splits)

lemma updateRoute_no_complete:
  "\<exists>evs. trace (updateRoute st r) = trace st @ evs \<and> (\<forall>x. OnComplete x \<notin> set evs)"
  unfolding updateRoute_trace
  by (rule exI, rule conjI, rule refl) (auto split: option.splits)

lemma call_tt_complete_fields:
  "router (call_tt_complete st c r) = router st"
  "next_obj (call_tt_complete st c r) = next_obj st"
  "ready (call_tt_complete st c r) = ready st"
  "pending (call_tt_complete st c r) = pending st"
  "current (call_tt_complete st c r) = current st"
  "readyCbs (call_tt_complete st c r) = readyCbs st"
  by (cases c; simp add: Let_def log_def split: option.splits)+

lemma call_tt_complete_stack_inv:
  "stack_inv st \<Longrightarrow> stack_inv (call_tt_complete st c r)"
proof (cases c)
  case (UserComplete u)
  then show "stack_inv st \<Longrightarrow> ?thesis" by (simp add: stack_inv_def log_def)
next
  case (PushComplete u)
  assume "stack_inv st"
  from stack_inv_push [OF this, of r] show ?thesis
    unfolding PushComplete by (cases u) (simp_all add: Let_def stack_inv_def log_def)
next
  case (ReplaceComplete u)
  assume "stack_inv st"
  from stack_inv_replace [OF this, of r] show ?thesis
    unfolding ReplaceComplete by (cases u) (simp_all add: Let_def stack_inv_def log_def)
qed

lemma call_tt_complete_trace:
  "\<exists>evs. trace (call_tt_complete st c r) = trace st @ evs \<and> (\<forall>x. OnComplete x \<notin> set evs)"
proof (cases c)
  case (UserComplete u)
  then show ?thesis by (simp add: log_def)
next
  case (PushComplete u)
  then show ?thesis by (cases u) (simp_all add: Let_def log_def)
next
  case (ReplaceComplete u)
  then show ?thesis by (cases u) (simp_all add: Let_def log_def)
qed

lemma call_onComplete_commits:
  assumes g: "g \<Longrightarrow> (case oc of GoComplete i \<Rightarrow> 0 \<le> i \<and> i < int (length (stack st))
                              | TransitionToComplete c \<Rightarrow> True)"
  shows "commits r g st (call_onComplete st oc r)"
proof (cases oc)
  case (GoComplete i)
  let ?s = "st\<lparr>index := i\<rparr>"
  obtain evs where evs: "trace (updateRoute ?s r) = trace ?s @ evs" "\<forall>x. OnComplete x \<notin> set evs"
    using updateRoute_no_complete [of ?s r] by blast
  have inv: "stack_inv (updateRoute ?s r)" if g
    using g [OF that] unfolding GoComplete
    by (simp add: stack_inv_def updateRoute_fields)
  show ?thesis
    unfolding GoComplete call_onComplete.simps commits_def
    using evs inv by (simp add: updateRoute_fields)
next
  case (TransitionToComplete c)
  define st1 where "st1 = updateRoute st r"
  define st2 where "st2 = (case c of Some c' \<Rightarrow> call_tt_complete st1 c' r | None \<Rightarrow> st1)"
  define st3 where "st3 = ensureURL st2 False"
  define st4 where "st4 = (if \<not> ready st3
         then log (st3\<lparr>ready := True\<rparr>) (map (\<lambda>c. ReadyCb c (Some (rid r))) (readyCbs st3))
         else st3)"
  have res: "call_onComplete st oc r = st4"
    unfolding TransitionToComplete call_onComplete.simps Let_def st4_def st3_def st2_def st1_def
    by (rule refl)
  obtain e1 where e1: "trace st1 = trace st @ e1" "\<forall>x. OnComplete x \<notin> set e1"
    unfolding st1_def using updateRoute_no_complete [of st r] by blast
  have f1: "router st1 = router st" "next_obj st1 = next_obj st" "ready st1 = ready st"
    "stack st1 = stack st" "index st1 = index st" "pending st1 = pending st" "current st1 = r"
    unfolding st1_def by (simp_all add: updateRoute_fields)
  obtain e2 where e2: "trace st2 = trace st1 @ e2" "\<forall>x. OnComplete x \<notin> set e2"
  proof (cases c)
    case None
    then have "trace st2 = trace st1 @ []" by (simp add: st2_def)
    then show ?thesis using that by force
  next
    case (Some c')
    then show ?thesis
      using call_tt_complete_trace [of st1 c' r] that by (auto simp: st2_def)
  qed
  have f2: "router st2 = router st1" "next_obj st2 = next_obj st1" "ready st2 = ready st1"
    "pending st2 = pending st1" "current st2 = current st1"
    unfolding st2_def by (cases c; simp add: call_tt_complete_fields)+
  have i2: "stack_inv st2" if "stack_inv st"
  proof -
    from that have "stack_inv st1" by (simp add: stack_inv_def f1)
    then show ?thesis
      unfolding st2_def by (cases c) (simp_all add: call_tt_complete_stack_inv)
  qed
  have q3: "quiet st2 st3"
    unfolding st3_def by (rule quiet_ensureURL)
  have q4: "quiet st3 st4"
  proof (cases "ready st3")
    case True
    then show ?thesis by (simp add: st4_def quiet_refl)
  next
    case False
    have "quiet st3 (log (st3\<lparr>ready := True\<rparr>)
        (map (\<lambda>c. ReadyCb c (Some (rid r))) (readyCbs st3)))"
      by (rule quiet_trans [OF quiet_ready]) (rule quiet_log, auto)
    with False show ?thesis by (simp add: st4_def)
  qed
  have q: "quiet st2 st4" using q3 q4 by (rule quiet_trans)
  then obtain e3 where 3: "router st4 = router st2" "next_obj st2 \<le> next_obj st4"
    "ready st2 \<Longrightarrow> ready st4" "stack st4 = stack st2" "index st4 = index st2"
    "current st4 = current st2" "pending st4 = pending st2" "trace st4 = trace st2 @ e3"
    "\<And>r. OnComplete r \<notin> set e3"
    unfolding quiet_def by blast
  have n4: "next_obj st4 = next_obj st2"
    by (simp add: st4_def st3_def ensureURL_def log_def)
  have "commits r g st st4"
    unfolding commits_def
  proof (intro conjI impI)
    show "router st4 = router st" by (simp add: 3 f2 f1)
    show "next_obj st4 = next_obj st" by (simp add: n4 f2 f1)
    show "ready st4" if "ready st" using that 3(3) by (simp add: f2 f1)
    show "stack_inv st4" if "stack_inv st \<and> g"
      using that i2 quiet_stack_inv [OF q] by blast
    show "pending st4 = pending st" by (simp add: 3 f2 f1)
    show "current st4 = r" by (simp add: 3 f2 f1)
    show "\<exists>evs. trace st4 = trace st @ evs \<and> (\<forall>x. OnComplete x \<notin> set evs)"
      by (rule exI [of _ "e1 @ e2 @ e3"]) (use e1 e2 3 in simp)
  qed
  then show ?thesis by (simp only: res)
qed

lemma finish_evolve: "evolve (own T st) (go_ok T st) st (finish st T cbs)"
proof (cases "pending_is st (t_route T)")
  case False
  then have "finish st T cbs = abort st T Undefined"
    by (simp add: finish_def)
  then show ?thesis
    by (simp add: quiet_imp_evolve quiet_abort)
next
  case True
  define st1 where "st1 = log (st\<lparr>pending := None\<rparr>) [OnComplete (rid (t_route T))]"
  define st2 where "st2 = call_onComplete st1 (t_onComplete T) (t_route T)"
  define st3 where "st3 = (if app (router st2) then st2\<lparr>nextTick := nextTick st2 @ [cbs]\<rparr> else st2)"
  have res: "finish st T cbs = st3"
    using True unfolding finish_def st3_def st2_def st1_def Let_def by simp
  have f1: "router st1 = router st" "next_obj st1 = next_obj st" "ready st1 = ready st"
    "stack st1 = stack st" "index st1 = index st" "pending st1 = None"
    "current st1 = current st" "trace st1 = trace st @ [OnComplete (rid (t_route T))]"
    by (simp_all add: st1_def log_def)
  have "go_ok T st \<Longrightarrow> (case t_onComplete T of GoComplete i \<Rightarrow> 0 \<le> i \<and> i < int (length (stack st1))
                              | TransitionToComplete c \<Rightarrow> True)"
    by (simp add: go_ok_def f1 split: complete_cb.splits)
  then have "commits (t_route T) (go_ok T st) st1 st2"
    unfolding st2_def by (rule call_onComplete_commits)
  then obtain e2 where 2: "router st2 = router st1" "next_obj st2 = next_obj st1"
    "ready st1 \<Longrightarrow> ready st2" "stack_inv st1 \<Longrightarrow> go_ok T st \<Longrightarrow> stack_inv st2"
    "pending st2 = pending st1" "current st2 = t_route T" "trace st2 = trace st1 @ e2"
    "\<And>x. OnComplete x \<notin> set e2"
    unfolding commits_def by blast
  have f3: "router st3 = router st2" "next_obj st3 = next_obj st2" "ready st3 = ready st2"
    "stack st3 = stack st2" "index st3 = index st2" "pending st3 = pending st2"
    "current st3 = current st2" "trace st3 = trace st2"
    by (simp_all add: st3_def)
  have "evolve (own T st) (go_ok T st) st st3"
  proof (rule evolveI [where evs = "OnComplete (rid (t_route T)) # e2"])
    show "router st3 = router st" by (simp add: f3 2 f1)
    show "next_obj st \<le> next_obj st3" by (simp add: f3 2 f1)
    show "ready st3" if "ready st" using that 2(3) by (simp add: f3 f1)
    show "stack_inv st3" if "stack_inv st" "go_ok T st"
    proof -
      from that(1) have "stack_inv st1" by (simp add: stack_inv_def f1)
      then have "stack_inv st2" using that(2) by (rule 2(4))
      then show ?thesis by (simp add: stack_inv_def f3)
    qed
    show "trace st3 = trace st @ OnComplete (rid (t_route T)) # e2"
      by (simp add: f3 2 f1)
    show "r \<in> own T st \<or> next_obj st \<le> r"
      if "OnComplete r \<in> set (OnComplete (rid (t_route T)) # e2)" for r
      using that 2(8) True by (auto simp: own_def)
    show "current st3 = current st \<or>
        OnComplete (rid (current st3)) \<in> set (OnComplete (rid (t_route T)) # e2)"
      by (simp add: f3 2)
    show "pending st3 = pending st \<or> pending st3 = None \<or>
       (\<exists>p. pending st3 = Some p \<and> (rid p \<in> own T st \<or> next_obj st \<le> rid p))"
      by (simp add: f3 2 f1)
  qed
  then show ?thesis by (simp only: res)
qed

lemma set_pending_evolve:
  assumes "evolve A g (st\<lparr>pending := Some r\<rparr>) st'" "rid r \<in> A"
  shows "evolve A g st st'"
proof -
  let ?s = "st\<lparr>pending := Some r\<rparr>"
  from assms(1) obtain evs where 1: "router st' = router ?s" "next_obj ?s \<le> next_obj st'"
    "ready ?s \<Longrightarrow> ready st'"
    "stack_inv ?s \<Longrightarrow> g \<Longrightarrow> stack_inv st'"
    "trace st' = trace ?s @ evs"
    "\<And>r. OnComplete r \<in> set evs \<Longrightarrow> r \<in> A \<or> next_obj ?s \<le> r"
    "current st' = current ?s \<or> OnComplete (rid (current st')) \<in> set evs"
    "pending st' = pending ?s \<or> pending st' = None \<or>
       (\<exists>p. pending st' = Some p \<and> (rid p \<in> A \<or> next_obj ?s \<le> rid p))"
    unfolding evolve_def by blast
  show ?thesis
  proof (rule evolveI [where evs = evs])
    show "stack_inv st'" if "stack_inv st" g
      using that 1(4) by (simp add: stack_inv_def)
    show "r \<in> A \<or> next_obj st \<le> r" if "OnComplete r \<in> set evs" for r
      using 1(6) [OF that] by simp
    show "pending st' = pending st \<or> pending st' = None \<or>
       (\<exists>p. pending st' = Some p \<and> (rid p \<in> A \<or> next_obj st \<le> rid p))"
      using 1(8) assms(2) by auto
  qed (use 1 in simp_all)
qed

lemma machine_evolve_all:
  "\<forall>st'. runQueue f st T ph q = Some st' \<longrightarrow> evolve (own T st) (go_ok T st) st st'"
  "\<forall>st'. iterator f st T ph q g = Some st' \<longrightarrow> evolve (own T st) (go_ok T st) st st'"
  "\<forall>st'. guard_next f st T ph q g v = Some st' \<longrightarrow> evolve (own T st) (go_ok T st) st st'"
  "\<forall>st'. resultHandler f st T ph q to = Some st' \<longrightarrow> evolve (own T st) (go_ok T st) st st'"
  "\<forall>st'. push f st loc oc oa = Some st' \<longrightarrow> evolve {} True st st'"
  "\<forall>st'. replace f st loc oc oa = Some st' \<longrightarrow> evolve {} True st st'"
  "\<forall>st'. transitionTo f st loc otc oa = Some st' \<longrightarrow> evolve {} True st st'"
  "\<forall>st'. confirmTransition f st r onC onA = Some st' \<longrightarrow>
     evolve {rid r} (go_ok \<lparr>t_route = r, t_current = current st, t_onComplete = onC,
                            t_onAbort = onA\<rparr> st) st st'"
proof (induction f st T ph q and f st T ph q g and f st T ph q g v and f st T ph q to
    and f st loc oc oa and f st loc oc oa and f st loc otc oa and f st r onC onA
    rule: runQueue_iterator_guard_next_resultHandler_push_replace_transitionTo_confirmTransition.induct)
  case (1 f st T act)
  define st1 where "st1 = st\<lparr>next_obj := Suc (next_obj st),
      postEnterCbs := (postEnterCbs st)(next_obj st := [])\<rparr>"
  define queue where "queue = extractEnterGuards (instances st1) act (next_obj st)
      @ map (\<lambda>h. Some (Plain h)) (resolveHooks (router st1))"
  have run: "runQueue f st T (QueueA act) [] = runQueue f st1 T (QueueB (next_obj st)) queue"
    by (simp add: runQueue.simps Let_def st1_def queue_def)
  have q: "quiet st st1"
    by (rule quietI [where evs = "[]"]) (simp_all add: st1_def)
  have IH: "\<forall>st'. runQueue f st1 T (QueueB (next_obj st)) queue = Some st' \<longrightarrow>
      evolve (own T st1) (go_ok T st1) st1 st'"
    using 1 [OF refl, of st1 queue] by (simp add: st1_def queue_def)
  show ?case
    unfolding run using IH quiet_step [OF q] by blast
next
  case (2 f st T cbs)
  show ?case
    by (simp add: runQueue.simps finish_evolve)
next
  case (3 f st T ph q)
  then show ?case
    by (simp add: runQueue.simps)
next
  case (4 f st T ph g q)
  then show ?case
    by (simp add: runQueue.simps)
next
  case (5 f st T ph q g)
  show ?case
  proof (cases "pending_is st (t_route T)")
    case False
    then have "iterator f st T ph q g = Some (abort st T Undefined)"
      by (simp add: iterator.simps)
    then show ?thesis
      by (simp add: quiet_imp_evolve quiet_abort)
  next
    case True
    define st1 where "st1 = log st [GuardCall g (rid (t_route T)) (rid (t_current T))]"
    have q: "quiet st st1"
      unfolding st1_def by (rule quiet_log) simp
    show ?thesis
    proof (cases "guard_action (router st1) g (t_route T) (t_current T)")
      case (Calls v)
      then have it: "iterator f st T ph q g = guard_next f st1 T ph q g v"
        using True by (simp add: iterator.simps Let_def st1_def)
      have "\<forall>st'. guard_next f st1 T ph q g v = Some st' \<longrightarrow>
          evolve (own T st1) (go_ok T st1) st1 st'"
        using 5 [of st1 v] True Calls by (simp add: st1_def)
      then show ?thesis
        unfolding it using quiet_step [OF q] by blast
    next
      case (Throws e)
      then have "iterator f st T ph q g = Some (abort st1 T e)"
        using True by (simp add: iterator.simps Let_def st1_def)
      moreover have "quiet st (abort st1 T e)"
        using q quiet_abort by (rule quiet_trans)
      ultimately show ?thesis
        by (simp add: quiet_imp_evolve)
    next
      case Suspends
      then have "iterator f st T ph q g = Some (suspend st1
          \<lparr>k_transition = T, k_phase = ph, k_rest = q, k_guard = g\<rparr>)"
        using True by (simp add: iterator.simps Let_def st1_def)
      moreover have "quiet st (suspend st1
          \<lparr>k_transition = T, k_phase = ph, k_rest = q, k_guard = g\<rparr>)"
        using q quiet_suspend by (rule quiet_trans)
      ultimately show ?thesis
        by (simp add: quiet_imp_evolve)
    qed
  qed
next
  case (6 f st T ph q g v)
  show ?case
  proof (cases g)
    case (Plain h)
    with 6(1) show ?thesis by (simp add: guard_next.simps)
  next
    case (Bound h i)
    with 6(2) show ?thesis by (simp add: guard_next.simps)
  next
    case (AsyncStep ms)
    with 6(4) show ?thesis by (simp add: guard_next.simps)
  next
    case (EnterGuard h m k cbs)
    have IH: "\<forall>st'. resultHandler f st T ph q v = Some st' \<longrightarrow>
        evolve (own T st) (go_ok T st) st st'"
      using 6(3) EnterGuard by simp
    show ?thesis
    proof (intro allI impI)
      fix st' assume a: "guard_next f st T ph q g v = Some st'"
      then obtain st1 where r: "resultHandler f st T ph q v = Some st1"
        and st': "st' = (case v of
                       Fun c \<Rightarrow> push_post_cb st1 cbs
                         \<lparr>pc_cb = c, pc_entry = eid m, pc_key = k, pc_route = rid (t_route T)\<rparr>
                     | _ \<Rightarrow> st1)"
        unfolding EnterGuard by (auto simp: guard_next.simps split: option.splits)
      have "quiet st1 st'"
        unfolding st' by (cases v) (simp_all add: quiet_refl quiet_push_post_cb)
      with IH r show "evolve (own T st) (go_ok T st) st st'"
        using evolve_quiet by blast
    qed
  qed
next
  case (7 f st T ph q to)
  show ?case
  proof (cases "to = Bool False \<or> isError to")
    case True
    then have "resultHandler f st T ph q to = Some (abort (ensureURL st True) T to)"
      by (simp add: resultHandler.simps)
    moreover have "quiet st (abort (ensureURL st True) T to)"
      using quiet_ensureURL quiet_abort by (rule quiet_trans)
    ultimately show ?thesis
      by (simp add: quiet_imp_evolve)
  next
    case False
    show ?thesis
    proof (cases "redirect_target to")
      case None
      with False have "resultHandler f st T ph q to = runQueue f st T ph q"
        by (simp add: resultHandler.simps)
      with 7(1) False None show ?thesis by simp
    next
      case (Some loc)
      show ?thesis
      proof (cases f)
        case 0
        with False Some show ?thesis by (simp add: resultHandler.simps)
      next
        case (Suc n)
        define st1 where "st1 = abort st T Undefined"
        have q: "quiet st st1"
          unfolding st1_def by (rule quiet_abort)
        have nested: "evolve (own T st) (go_ok T st) st st'" if "evolve {} True st1 st'" for st'
        proof -
          from q that have "evolve {} True st st'" by (rule quiet_evolve)
          then show ?thesis by (rule evolve_weaken) simp_all
        qed
        show ?thesis
        proof (cases "wants_replace to")
          case True
          then have "resultHandler f st T ph q to = replace n st1 loc None None"
            using False Some Suc by (simp add: resultHandler.simps Let_def st1_def)
          moreover have "\<forall>st'. replace n st1 loc None None = Some st' \<longrightarrow> evolve {} True st1 st'"
            using 7(2) [OF False Some Suc, of st1] True by (simp add: st1_def)
          ultimately show ?thesis using nested by simp
        next
          case nr: False
          then have "resultHandler f st T ph q to = push n st1 loc None None"
            using False Some Suc by (simp add: resultHandler.simps Let_def st1_def)
          moreover have "\<forall>st'. push n st1 loc None None = Some st' \<longrightarrow> evolve {} True st1 st'"
            using 7(3) [OF False Some Suc, of st1] nr by (simp add: st1_def)
          ultimately show ?thesis using nested by simp
        qed
      qed
    qed
  qed
next
  case (8 f st loc onComplete onAbort)
  then show ?case by (simp add: push.simps)
next
  case (9 f st loc onComplete onAbort)
  then show ?case by (simp add: replace.simps)
next
  case (10 f st loc onComplete onAbort)
  define r where "r = (match (router st) loc (current st))\<lparr>rid := next_obj st\<rparr>"
  define st1 where "st1 = st\<lparr>next_obj := Suc (next_obj st)\<rparr>"
  have tt: "transitionTo f st loc onComplete onAbort =
      confirmTransition f st1 r (TransitionToComplete onComplete)
        (Some (TransitionToAbort onAbort))"
    by (simp add: transitionTo.simps Let_def r_def st1_def)
  have q: "quiet st st1"
    by (rule quietI [where evs = "[]"]) (simp_all add: st1_def)
  have IH: "\<forall>st'. confirmTransition f st1 r (TransitionToComplete onComplete)
        (Some (TransitionToAbort onAbort)) = Some st' \<longrightarrow> evolve {rid r} True st1 st'"
    using 10 [of r st1] by (simp add: r_def st1_def go_ok_def)
  show ?case
  proof (intro allI impI)
    fix st' assume "transitionTo f st loc onComplete onAbort = Some st'"
    with tt IH have "evolve {rid r} True st1 st'" by simp
    with q have "evolve {rid r} True st st'" by (rule quiet_evolve)
    then show "evolve {} True st st'"
      by (rule evolve_weaken) (simp_all add: r_def)
  qed
next
  case (11 f st r onComplete onAbort)
  define T where "T = \<lparr>t_route = r, t_current = current st, t_onComplete = onComplete,
      t_onAbort = onAbort\<rparr>"
  show ?case
  proof (cases "isSameRoute r (current st) \<and> length (matched r) = length (matched (current st))")
    case True
    then have "confirmTransition f st r onComplete onAbort =
        Some (abort (ensureURL st False) T Undefined)"
      by (simp add: confirmTransition.simps Let_def T_def)
    moreover have "quiet st (abort (ensureURL st False) T Undefined)"
      using quiet_ensureURL quiet_abort by (rule quiet_trans)
    ultimately show ?thesis
      by (simp add: quiet_imp_evolve)
  next
    case False
    define qs where "qs = resolveQueue (matched (current st)) (matched r)"
    define st1 where "st1 = st\<lparr>pending := Some r\<rparr>"
    have ct: "confirmTransition f st r onComplete onAbort =
        runQueue f st1 T (QueueA (activated qs)) (build_queue st qs)"
      using False by (auto simp add: confirmTransition.simps Let_def T_def qs_def st1_def)
    have IH: "\<forall>st'. runQueue f st1 T (QueueA (activated qs)) (build_queue st qs) = Some st' \<longrightarrow>
        evolve (own T st1) (go_ok T st1) st1 st'"
      using 11 [OF refl refl False refl refl refl] by (simp add: T_def qs_def st1_def)
    have o: "own T st1 = {rid r}"
      by (simp add: own_def pending_is_def st1_def T_def)
    have g: "go_ok T st1 = go_ok T st"
      by (simp add: go_ok_def st1_def split: complete_cb.splits)
    show ?thesis
    proof (intro allI impI)
      fix st' assume "confirmTransition f st r onComplete onAbort = Some st'"
      with ct IH have "evolve {rid r} (go_ok T st) st1 st'" by (simp add: o g)
      then have "evolve {rid r} (go_ok T st) st st'"
        unfolding st1_def by (rule set_pending_evolve) simp
      then show "evolve {rid r}
          (go_ok \<lparr>t_route = r, t_current = current st, t_onComplete = onComplete,
                  t_onAbort = onAbort\<rparr> st) st st'"
        by (simp add: T_def)
    qed
  qed
qed

section \<open>Abort\<close>

lemma abort_fields:
  "current (abort st T err) = current st" "pending (abort st T err) = pending st"
  "stack (abort st T err) = stack st" "index (abort st T err) = index st"
  "router (abort st T err) = router st" "next_obj (abort st T err) = next_obj st"
  "suspended (abort st T err) = suspended st" "errorCbs (abort st T err) = errorCbs st"
  "readyCbs (abort st T err) = readyCbs st" "readyErrorCbs (abort st T err) = readyErrorCbs st"
  "instances (abort st T err) = instances st" "postEnterCbs (abort st T err) = postEnterCbs st"
  "nextTick (abort st T err) = nextTick st" "timers (abort st T err) = timers st"
  "cb (abort st T err) = cb st"
  by (cases "t_onAbort T"; cases "the (t_onAbort T)";
      simp add: abort_def Let_def log_def split: option.splits)+

lemma abort_silent:
  assumes "\<not> truthy err" "\<not> isError err"
  shows "abort st T err = log st (onAbort_calls T err)"
proof (cases "t_onAbort T")
  case None
  then show ?thesis
    using assms by (simp add: abort_def onAbort_calls_def log_def)
next
  case (Some oa)
  then show ?thesis
    using assms
    by (cases oa) (simp add: abort_def onAbort_calls_def log_def Let_def split: option.splits)
qed

lemma abort_error_trace:
  "trace (abort st T (Error e)) = trace st
     @ (if errorCbs st \<noteq> [] then map (\<lambda>c. ErrorCb c (Error e)) (errorCbs st)
        else [Warn (Error e)])
     @ onAbort_calls T (Error e)
     @ (if t_onAbort T \<noteq> None \<and> \<not> ready st
        then map (\<lambda>c. ReadyErrorCb c (Error e)) (readyErrorCbs st) else [])"
proof (cases "t_onAbort T")
  case None
  then show ?thesis
    by (simp add: abort_def onAbort_calls_def log_def)
next
  case (Some oa)
  then show ?thesis
    by (cases oa) (simp add: abort_def onAbort_calls_def log_def Let_def split: option.splits)
qed

lemma abort_ready:
  "ready (abort st T err) = (ready st \<or> (truthy err \<and> t_onAbort T \<noteq> None))"
proof (cases "t_onAbort T")
  case None
  then show ?thesis
    by (simp add: abort_def log_def)
next
  case (Some oa)
  then show ?thesis
    by (cases oa) (auto simp add: abort_def log_def Let_def split: option.splits)
qed

lemma ensureURL_fields:
  "current (ensureURL st b) = current st" "pending (ensureURL st b) = pending st"
  "stack (ensureURL st b) = stack st" "index (ensureURL st b) = index st"
  "router (ensureURL st b) = router st" "next_obj (ensureURL st b) = next_obj st"
  "suspended (ensureURL st b) = suspended st" "errorCbs (ensureURL st b) = errorCbs st"
  "ready (ensureURL st b) = ready st" "readyErrorCbs (ensureURL st b) = readyErrorCbs st"
  "trace (ensureURL st b) = trace st @ [EnsureURL b]"
  by (simp_all add: ensureURL_def log_def)

lemma log_fields:
  "current (log st evs) = current st" "pending (log st evs) = pending st"
  "stack (log st evs) = stack st" "index (log st evs) = index st"
  "router (log st evs) = router st" "next_obj (log st evs) = next_obj st"
  "suspended (log st evs) = suspended st" "errorCbs (log st evs) = errorCbs st"
  "ready (log st evs) = ready st" "readyErrorCbs (log st evs) = readyErrorCbs st"
  "readyCbs (log st evs) = readyCbs st"
  "trace (log st evs) = trace st @ evs"
  by (simp_all add: log_def)

section \<open>A guard that continues with false or an error\<close>

lemma resultHandler_veto:
  "to = Bool False \<or> isError to \<Longrightarrow>
   resultHandler f st T ph q to = Some (abort (ensureURL st True) T to)"
  by (simp add: resultHandler.simps)

lemma guard_next_veto:
  assumes "to = Bool False \<or> isError to"
  shows "guard_next f st T ph q g to = Some (abort (ensureURL st True) T to)"
proof -
  have "\<not> is_function to"
    using assms by (cases to) auto
  then show ?thesis
    using resultHandler_veto [OF assms]
    by (cases g; cases to) (simp_all add: guard_next.simps)
qed

text \<open>
  C3 (as amended). When a checkpoint calls its continuation with \<open>false\<close>: the address
  backend is resynced with the force flag, then the transition aborts with \<open>false\<close>;
  \<open>current\<close>, the pending slot and the ready flag are unchanged; no global error
  callback is called (\<open>false\<close> is not an error value); the abort callback handed to
  \<open>confirmTransition\<close> is called exactly once, and so is the caller's \<open>onAbort\<close> when
  there is one. When the value is an error, every registered global error callback is
  called with it, once per registration and in order.
\<close>

theorem next_false_aborts:
  "\<exists>st'. guard_next f st T ph q g (Bool False) = Some st'
     \<and> current st' = current st \<and> pending st' = pending st \<and> ready st' = ready st
     \<and> trace st' = trace st @ EnsureURL True # onAbort_calls T (Bool False)
     \<and> (\<forall>c e. ErrorCb c e \<notin> set (drop (length (trace st)) (trace st')))
     \<and> count_list (drop (length (trace st)) (trace st')) (EnsureURL True) = 1
     \<and> count_list (drop (length (trace st)) (trace st')) (OnAbort (rid (t_route T)) (Bool False))
         = (if t_onAbort T = None then 0 else 1)
     \<and> (\<forall>c. t_onAbort T = Some (TransitionToAbort (Some c)) \<longrightarrow>
          count_list (drop (length (trace st)) (trace st')) (UserOnAbort c (Bool False)) = 1)
     \<and> (\<exists>st''. guard_next f st T ph q g (Error e) = Some st''
          \<and> current st'' = current st
          \<and> filter (\<lambda>x. case x of ErrorCb c v \<Rightarrow> True | _ \<Rightarrow> False)
               (drop (length (trace st)) (trace st''))
             = map (\<lambda>c. ErrorCb c (Error e)) (errorCbs st))"
proof -
  define st' where "st' = abort (ensureURL st True) T (Bool False)"
  define st'' where "st'' = abort (ensureURL st True) T (Error e)"
  have r: "guard_next f st T ph q g (Bool False) = Some st'"
    unfolding st'_def by (rule guard_next_veto) simp
  have r': "guard_next f st T ph q g (Error e) = Some st''"
    unfolding st''_def by (rule guard_next_veto) simp
  have eq: "st' = log (ensureURL st True) (onAbort_calls T (Bool False))"
    unfolding st'_def by (rule abort_silent) simp_all
  have tr: "trace st' = trace st @ EnsureURL True # onAbort_calls T (Bool False)"
    by (simp add: eq log_fields ensureURL_fields)
  have new: "drop (length (trace st)) (trace st') = EnsureURL True # onAbort_calls T (Bool False)"
    by (simp add: tr)
  have f: "current st' = current st" "pending st' = pending st" "ready st' = ready st"
    by (simp_all add: eq log_fields ensureURL_fields)
  have noerr: "\<forall>c e. ErrorCb c e \<notin> set (drop (length (trace st)) (trace st'))"
    unfolding new by (cases "t_onAbort T"; cases "the (t_onAbort T)")
      (auto simp: onAbort_calls_def split: option.splits)
  have c1: "count_list (drop (length (trace st)) (trace st')) (EnsureURL True) = 1"
    unfolding new by (cases "t_onAbort T"; cases "the (t_onAbort T)")
      (auto simp: onAbort_calls_def split: option.splits)
  have c2: "count_list (drop (length (trace st)) (trace st')) (OnAbort (rid (t_route T)) (Bool False))
         = (if t_onAbort T = None then 0 else 1)"
    unfolding new by (cases "t_onAbort T"; cases "the (t_onAbort T)")
      (auto simp: onAbort_calls_def split: option.splits)
  have c3: "\<forall>c. t_onAbort T = Some (TransitionToAbort (Some c)) \<longrightarrow>
          count_list (drop (length (trace st)) (trace st')) (UserOnAbort c (Bool False)) = 1"
    unfolding new by (auto simp: onAbort_calls_def)
  have tr'': "drop (length (trace st)) (trace st'') = EnsureURL True
     # (if errorCbs st \<noteq> [] then map (\<lambda>c. ErrorCb c (Error e)) (errorCbs st)
        else [Warn (Error e)])
     @ onAbort_calls T (Error e)
     @ (if t_onAbort T \<noteq> None \<and> \<not> ready st
        then map (\<lambda>c. ReadyErrorCb c (Error e)) (readyErrorCbs st) else [])"
    by (simp add: st''_def abort_error_trace ensureURL_fields)
  have oa: "filter (\<lambda>x. case x of ErrorCb c v \<Rightarrow> True | _ \<Rightarrow> False) (onAbort_calls T (Error e)) = []"
    by (cases "t_onAbort T"; cases "the (t_onAbort T)")
      (auto simp: onAbort_calls_def split: option.splits)
  have flt: "filter (\<lambda>x. case x of ErrorCb c v \<Rightarrow> True | _ \<Rightarrow> False)
               (drop (length (trace st)) (trace st''))
             = map (\<lambda>c. ErrorCb c (Error e)) (errorCbs st)"
    unfolding tr'' by (simp add: oa filter_map comp_def)
  have cur'': "current st'' = current st"
    by (simp add: st''_def abort_fields ensureURL_fields)
  show ?thesis
    using r f tr noerr c1 c2 c3 r' cur'' flt by blast
qed

section \<open>Evaluation of the examples\<close>

lemmas scenario_simps = machine_simps init_def plain_router_def veto_router_def START_def
  isSameRoute_def demo_route_def resolveQueue_def resolveQueue_loop.simps build_queue_def
  extractLeaveGuards_def extractUpdateHooks_def extractEnterGuards_def extractGuards_def
  flatMapComponents_def ent_def js_index_def entry_neq_def Let_def log_def pending_is_def
  finish_def abort_def updateRoute_def ensureURL_def js_slice0_def go_def js_index_int_def
  getCurrentLocation_def onError_def onReady_def listen_def suspend_def resume_def
  push_post_cb_def

text \<open>
  C3, as stated, fails: with one global error callback registered, a before hook that
  answers \<open>next(false)\<close> aborts the transition without any call of that callback.
\<close>

theorem next_false_calls_no_error_callback:
  "map_option errorCbs
     (transitionTo 0 (onError (init veto_router) 7) (LocString ''/a'') None (Some 5)) = Some [7]
   \<and> map_option trace
     (transitionTo 0 (onError (init veto_router) 7) (LocString ''/a'') None (Some 5)) =
     Some [GuardCall (Plain 1) 1 0, EnsureURL True, OnAbort 1 (Bool False),
           UserOnAbort 5 (Bool False)]"
  by (simp add: scenario_simps)

theorem next_false_aborts_witness:
  "\<exists>st'. guard_next 0 (onError (init veto_router) 7) veto_transition (QueueA []) []
            (Plain 1) (Bool False) = Some st'
     \<and> current st' = START
     \<and> trace st' = [EnsureURL True, OnAbort 1 (Bool False), UserOnAbort 5 (Bool False)]
     \<and> count_list (trace st') (UserOnAbort 5 (Bool False)) = 1"
  using next_false_aborts [of 0 "onError (init veto_router) 7" veto_transition "QueueA []" "[]"
      "Plain 1" 0]
  by (auto simp add: veto_transition_def onAbort_calls_def init_def onError_def demo_route_def)

section \<open>The same-route short circuit\<close>

lemma confirmTransition_same:
  assumes "isSameRoute r (current st)" "length (matched r) = length (matched (current st))"
  shows "confirmTransition f st r onC onA =
    Some (log st (EnsureURL False
      # onAbort_calls \<lparr>t_route = r, t_current = current st, t_onComplete = onC,
                        t_onAbort = onA\<rparr> Undefined))"
proof -
  let ?T = "\<lparr>t_route = r, t_current = current st, t_onComplete = onC, t_onAbort = onA\<rparr>"
  have "confirmTransition f st r onC onA = Some (abort (ensureURL st False) ?T Undefined)"
    using assms by (simp add: confirmTransition.simps Let_def)
  also have "abort (ensureURL st False) ?T Undefined
      = log (ensureURL st False) (onAbort_calls ?T Undefined)"
    by (rule abort_silent) simp_all
  also have "\<dots> = log st (EnsureURL False # onAbort_calls ?T Undefined)"
    by (simp add: log_def ensureURL_def)
  finally show ?thesis .
qed

lemma onAbort_calls_kinds:
  "GuardCall g a b \<notin> set (onAbort_calls T err)"
  "OnComplete r \<notin> set (onAbort_calls T err)"
  "ErrorCb c e \<notin> set (onAbort_calls T err)"
  "Warn e \<notin> set (onAbort_calls T err)"
  "ReadyErrorCb c e \<notin> set (onAbort_calls T err)"
  "ReadyCb c x \<notin> set (onAbort_calls T err)"
  "EnsureURL y \<notin> set (onAbort_calls T err)"
  by (cases "t_onAbort T"; cases "the (t_onAbort T)";
      auto simp: onAbort_calls_def split: option.splits)+

text \<open>
  C5. When the target \<open>L2\<close> is the same location as \<open>current\<close> (same path, query and
  hash) and has as many matched records, \<open>confirmTransition\<close> only calls \<open>ensureURL\<close>
  and aborts with no error value: no guard is called, nothing is committed
  (\<open>current\<close>, the pending slot, the stack and the cursor are unchanged), and the result
  does not depend on the guards of the router. The same holds of \<open>transitionTo\<close> when
  the matcher returns such a route.
\<close>

theorem same_route_short_circuit:
  assumes "isSameRoute L2 (current st)"
    and "length (matched L2) = length (matched (current st))"
  shows "\<exists>st'. confirmTransition f st L2 onComplete onAbort = Some st'
     \<and> st' = log st (EnsureURL False
          # onAbort_calls \<lparr>t_route = L2, t_current = current st, t_onComplete = onComplete,
                            t_onAbort = onAbort\<rparr> Undefined)
     \<and> current st' = current st \<and> pending st' = pending st \<and> stack st' = stack st
     \<and> index st' = index st \<and> ready st' = ready st \<and> suspended st' = suspended st
     \<and> (\<forall>g a b. GuardCall g a b \<notin> set (drop (length (trace st)) (trace st')))
     \<and> (\<forall>r. OnComplete r \<notin> set (drop (length (trace st)) (trace st')))
     \<and> (\<forall>c e. ErrorCb c e \<notin> set (drop (length (trace st)) (trace st')))
     \<and> (\<forall>e. Warn e \<notin> set (drop (length (trace st)) (trace st')))"
proof -
  let ?T = "\<lparr>t_route = L2, t_current = current st, t_onComplete = onComplete,
             t_onAbort = onAbort\<rparr>"
  define st' where "st' = log st (EnsureURL False # onAbort_calls ?T Undefined)"
  have r: "confirmTransition f st L2 onComplete onAbort = Some st'"
    unfolding st'_def using assms by (rule confirmTransition_same)
  have new: "drop (length (trace st)) (trace st') = EnsureURL False # onAbort_calls ?T Undefined"
    by (simp add: st'_def log_def)
  have f: "current st' = current st" "pending st' = pending st" "stack st' = stack st"
    "index st' = index st" "ready st' = ready st" "suspended st' = suspended st"
    by (simp_all add: st'_def log_def)
  have k: "\<forall>g a b. GuardCall g a b \<notin> set (drop (length (trace st)) (trace st'))"
    "\<forall>r. OnComplete r \<notin> set (drop (length (trace st)) (trace st'))"
    "\<forall>c e. ErrorCb c e \<notin> set (drop (length (trace st)) (trace st'))"
    "\<forall>e. Warn e \<notin> set (drop (length (trace st)) (trace st'))"
    unfolding new by (simp_all add: onAbort_calls_kinds)
  show ?thesis
    using r f k st'_def by blast
qed

lemma transitionTo_same:
  assumes "isSameRoute (match (router st) loc (current st)) (current st)"
    and "length (matched (match (router st) loc (current st))) = length (matched (current st))"
  shows "\<exists>st'. transitionTo f st loc onComplete onAbort = Some st'
     \<and> current st' = current st \<and> pending st' = pending st
     \<and> (\<forall>g a b. GuardCall g a b \<notin> set (drop (length (trace st)) (trace st')))
     \<and> (\<forall>r. OnComplete r \<notin> set (drop (length (trace st)) (trace st')))"
proof -
  define r where "r = (match (router st) loc (current st))\<lparr>rid := next_obj st\<rparr>"
  define st1 where "st1 = st\<lparr>next_obj := Suc (next_obj st)\<rparr>"
  let ?T = "\<lparr>t_route = r, t_current = current st1,
             t_onComplete = TransitionToComplete onComplete,
             t_onAbort = Some (TransitionToAbort onAbort)\<rparr>"
  define st' where "st' = log st1 (EnsureURL False # onAbort_calls ?T Undefined)"
  have tt: "transitionTo f st loc onComplete onAbort =
      confirmTransition f st1 r (TransitionToComplete onComplete)
        (Some (TransitionToAbort onAbort))"
    by (simp add: transitionTo.simps Let_def r_def st1_def)
  have "isSameRoute r (current st1)" "length (matched r) = length (matched (current st1))"
    using assms by (simp_all add: r_def st1_def isSameRoute_def)
  then have res: "transitionTo f st loc onComplete onAbort = Some st'"
    unfolding tt st'_def by (rule confirmTransition_same)
  have new: "drop (length (trace st)) (trace st') = EnsureURL False # onAbort_calls ?T Undefined"
    by (simp add: st'_def st1_def log_def)
  have "current st' = current st" "pending st' = pending st"
    by (simp_all add: st'_def st1_def log_def)
  moreover have "\<forall>g a b. GuardCall g a b \<notin> set (drop (length (trace st)) (trace st'))"
    "\<forall>r. OnComplete r \<notin> set (drop (length (trace st)) (trace st'))"
    unfolding new by (simp_all add: onAbort_calls_kinds)
  ultimately show ?thesis
    using res by blast
qed

lemma at_a_eval:
  "current at_a = (demo_route ''/a'')\<lparr>rid := 1\<rparr>" "pending at_a = None"
  "index at_a = 0" "stack at_a = [(demo_route ''/a'')\<lparr>rid := 1\<rparr>]"
  "trace at_a = [GuardCall (AsyncStep [ent 1]) 1 0, OnComplete 1, EnsureURL False]"
  "next_obj at_a = 3" "ready at_a" "router at_a = plain_router"
  by (simp_all add: at_a_def scenario_simps)

theorem same_route_short_circuit_witness:
  "isSameRoute ((demo_route ''/a'')\<lparr>rid := 3\<rparr>) (current at_a)
   \<and> length (matched ((demo_route ''/a'')\<lparr>rid := 3\<rparr>)) = length (matched (current at_a))
   \<and> map_option trace (confirmTransition 0 at_a ((demo_route ''/a'')\<lparr>rid := 3\<rparr>)
        (TransitionToComplete None) (Some (TransitionToAbort (Some 4))))
     = Some (trace at_a @ [EnsureURL False, OnAbort 3 Undefined, UserOnAbort 4 Undefined])
   \<and> map_option (\<lambda>s. rid (current s)) (confirmTransition 0 at_a ((demo_route ''/a'')\<lparr>rid := 3\<rparr>)
        (TransitionToComplete None) (Some (TransitionToAbort (Some 4)))) = Some 1"
proof -
  have h1: "isSameRoute ((demo_route ''/a'')\<lparr>rid := 3\<rparr>) (current at_a)"
    by (simp add: at_a_eval isSameRoute_def demo_route_def)
  have h2: "length (matched ((demo_route ''/a'')\<lparr>rid := 3\<rparr>)) = length (matched (current at_a))"
    by (simp add: at_a_eval demo_route_def)
  from same_route_short_circuit [OF h1 h2, of 0 "TransitionToComplete None"
      "Some (TransitionToAbort (Some 4))"]
  show ?thesis
    using h1 h2 by (auto simp add: onAbort_calls_def log_def at_a_eval)
qed

section \<open>Where the current route changes\<close>

lemma evolve_current:
  assumes "evolve A g st st'"
  shows "current st' = current st \<or>
         OnComplete (rid (current st')) \<in> set (drop (length (trace st)) (trace st'))"
proof -
  from assms obtain evs where "trace st' = trace st @ evs"
    "current st' = current st \<or> OnComplete (rid (current st')) \<in> set evs"
    unfolding evolve_def by blast
  then show ?thesis by auto
qed

lemma go_evolve:
  assumes "go f st n = Some st'"
  shows "\<exists>A. evolve A True st st'"
proof (cases "index st + n < 0 \<or> index st + n \<ge> int (length (stack st))")
  case True
  with assms have "st' = st" by (simp add: go_def Let_def)
  then show ?thesis
    using quiet_imp_evolve [OF quiet_refl] by blast
next
  case False
  define r where "r = stack st ! nat (index st + n)"
  from assms False have "confirmTransition f st r (GoComplete (index st + n)) None = Some st'"
    by (simp add: go_def Let_def r_def)
  then have "evolve {rid r} (go_ok \<lparr>t_route = r, t_current = current st,
      t_onComplete = GoComplete (index st + n), t_onAbort = None\<rparr> st) st st'"
    using machine_evolve_all(8) by blast
  moreover have "go_ok \<lparr>t_route = r, t_current = current st,
      t_onComplete = GoComplete (index st + n), t_onAbort = None\<rparr> st"
    using False by (simp add: go_ok_def)
  ultimately show ?thesis by auto
qed

text \<open>
  C8. \<open>abort\<close> (and the \<open>onAbort\<close> callback of \<open>transitionTo\<close>) leaves \<open>current\<close> as it
  is. \<open>updateRoute(route)\<close> keeps the previous \<open>current\<close>, stores \<open>route\<close>, calls the
  listener (if one is registered) with the new route, then every global after hook, in
  registration order, with the new and the previous route and nothing else. Whenever
  \<open>transitionTo\<close>, \<open>go\<close> or the continuation of a suspended guard returns with another
  \<open>current\<close>, the completion callback of \<open>confirmTransition\<close> was called for that
  route: \<open>current\<close> changes on the commit path only.
\<close>

theorem current_changes_on_commit_only:
  "current (abort st T err) = current st
   \<and> current (call_onAbort st oa err) = current st
   \<and> updateRoute st r =
       st\<lparr>current := r,
          trace := trace st
            @ (case cb st of Some c \<Rightarrow> [Listener c (rid r)] | None \<Rightarrow> [])
            @ concat (map (\<lambda>h. case h of
                                  Some h' \<Rightarrow> [AfterHook h' (rid r) (rid (current st))]
                                | None \<Rightarrow> [])
                       (afterHooks (router st)))\<rparr>
   \<and> (\<forall>st'. transitionTo f st loc onComplete onAbort = Some st' \<longrightarrow>
         current st' = current st \<or>
         OnComplete (rid (current st')) \<in> set (drop (length (trace st)) (trace st')))
   \<and> (\<forall>st'. go f st n = Some st' \<longrightarrow>
         current st' = current st \<or>
         OnComplete (rid (current st')) \<in> set (drop (length (trace st)) (trace st')))
   \<and> (\<forall>st'. resume f st k v = Some st' \<longrightarrow>
         current st' = current st \<or>
         OnComplete (rid (current st')) \<in> set (drop (length (trace st)) (trace st')))"
proof (intro conjI allI impI)
  show "current (abort st T err) = current st"
    by (rule abort_fields)
  show "current (call_onAbort st oa err) = current st"
    by (cases oa) (simp add: Let_def log_def split: option.splits)
  show "updateRoute st r =
       st\<lparr>current := r,
          trace := trace st
            @ (case cb st of Some c \<Rightarrow> [Listener c (rid r)] | None \<Rightarrow> [])
            @ concat (map (\<lambda>h. case h of
                                  Some h' \<Rightarrow> [AfterHook h' (rid r) (rid (current st))]
                                | None \<Rightarrow> [])
                       (afterHooks (router st)))\<rparr>"
    by (simp add: updateRoute_def Let_def log_def split: option.splits)
next
  fix st' assume "transitionTo f st loc onComplete onAbort = Some st'"
  then have "evolve {} True st st'"
    using machine_evolve_all(7) by blast
  then show "current st' = current st \<or>
         OnComplete (rid (current st')) \<in> set (drop (length (trace st)) (trace st'))"
    by (rule evolve_current)
next
  fix st' assume "go f st n = Some st'"
  then obtain A where "evolve A True st st'"
    using go_evolve by blast
  then show "current st' = current st \<or>
         OnComplete (rid (current st')) \<in> set (drop (length (trace st)) (trace st'))"
    by (rule evolve_current)
next
  fix st' assume "resume f st k v = Some st'"
  then have "evolve (own (k_transition k) st) (go_ok (k_transition k) st) st st'"
    using machine_evolve_all(3) unfolding resume_def by blast
  then show "current st' = current st \<or>
         OnComplete (rid (current st')) \<in> set (drop (length (trace st)) (trace st'))"
    by (rule evolve_current)
qed

section \<open>Runs that need no fuel\<close>

lemma no_redirect_guard_action:
  "no_redirect rt \<Longrightarrow> guard_action rt g to from = Calls v \<Longrightarrow> redirect_target v = None"
  by (cases g) (auto simp: no_redirect_def)

lemma machine_total_all:
  "no_redirect (router st) \<longrightarrow> (\<exists>st'. runQueue f st T ph q = Some st')"
  "no_redirect (router st) \<longrightarrow> (\<exists>st'. iterator f st T ph q g = Some st')"
  "no_redirect (router st) \<and> redirect_target v = None
     \<longrightarrow> (\<exists>st'. guard_next f st T ph q g v = Some st')"
  "no_redirect (router st) \<and> redirect_target to = None
     \<longrightarrow> (\<exists>st'. resultHandler f st T ph q to = Some st')"
  "no_redirect (router st) \<longrightarrow> (\<exists>st'. push f st loc oc oa = Some st')"
  "no_redirect (router st) \<longrightarrow> (\<exists>st'. replace f st loc oc oa = Some st')"
  "no_redirect (router st) \<longrightarrow> (\<exists>st'. transitionTo f st loc otc oa = Some st')"
  "no_redirect (router st) \<longrightarrow> (\<exists>st'. confirmTransition f st r onC onA = Some st')"
proof (induction f st T ph q and f st T ph q g and f st T ph q g v and f st T ph q to
    and f st loc oc oa and f st loc oc oa and f st loc otc oa and f st r onC onA
    rule: runQueue_iterator_guard_next_resultHandler_push_replace_transitionTo_confirmTransition.induct)
  case (1 f st T act)
  from 1 [OF refl refl refl] show ?case
    by (simp add: runQueue.simps Let_def)
next
  case (2 f st T cbs)
  show ?case by (simp add: runQueue.simps)
next
  case (3 f st T ph q)
  then show ?case by (simp add: runQueue.simps)
next
  case (4 f st T ph g q)
  then show ?case by (simp add: runQueue.simps)
next
  case (5 f st T ph q g)
  show ?case
  proof (intro impI)
    assume nr: "no_redirect (router st)"
    show "\<exists>st'. iterator f st T ph q g = Some st'"
    proof (cases "pending_is st (t_route T)")
      case False
      then show ?thesis by (simp add: iterator.simps)
    next
      case True
      define st1 where "st1 = log st [GuardCall g (rid (t_route T)) (rid (t_current T))]"
      have rt: "router st1 = router st" by (simp add: st1_def log_def)
      show ?thesis
      proof (cases "guard_action (router st1) g (t_route T) (t_current T)")
        case (Calls v)
        then have "redirect_target v = None"
          using nr rt no_redirect_guard_action by metis
        then have "\<exists>st'. guard_next f st1 T ph q g v = Some st'"
          using 5 [of st1 v] True Calls nr rt by (simp add: st1_def)
        then show ?thesis
          using True Calls by (simp add: iterator.simps Let_def st1_def)
      next
        case (Throws e)
        then show ?thesis
          using True by (simp add: iterator.simps Let_def st1_def)
      next
        case Suspends
        then show ?thesis
          using True by (simp add: iterator.simps Let_def st1_def)
      qed
    qed
  qed
next
  case (6 f st T ph q g v)
  then show ?case
    by (cases g) (auto simp add: guard_next.simps)
next
  case (7 f st T ph q to)
  then show ?case
    by (auto simp add: resultHandler.simps)
next
  case (8 f st loc onComplete onAbort)
  then show ?case by (simp add: push.simps)
next
  case (9 f st loc onComplete onAbort)
  then show ?case by (simp add: replace.simps)
next
  case (10 f st loc onComplete onAbort)
  from 10 [OF refl refl] show ?case
    by (simp add: transitionTo.simps Let_def)
next
  case (11 f st r onComplete onAbort)
  show ?case
  proof (cases "isSameRoute r (current st) \<and> length (matched r) = length (matched (current st))")
    case True
    then show ?thesis by (simp add: confirmTransition.simps Let_def)
  next
    case False
    from 11 [OF refl refl False refl refl refl] False show ?thesis
      by (auto simp add: confirmTransition.simps Let_def)
  qed
qed

section \<open>The invariant of the stack and its cursor\<close>






lemma no_redirect_plain: "no_redirect plain_router"
  by (simp add: no_redirect_def plain_router_def)


section \<open>The scenario push, push, go back\<close>

text \<open>
  C6, as stated, fails: after \<open>push('/a')\<close>, \<open>push('/b')\<close> and \<open>go(-1)\<close>,
  \<open>getCurrentLocation()\<close> returns \<open>/b\<close>, the full path of the last route of the stack,
  not \<open>/a\<close>.
\<close>

theorem getCurrentLocation_after_go_back:
  "map_option getCurrentLocation (scenario_ab 0) = Some ''/b''
   \<and> map_option getCurrentLocation (scenario_ab 0) \<noteq> Some ''/a''"
  by (simp add: scenario_ab_def scenario_simps)

text \<open>
  C6 (as amended). On a history that starts empty, after \<open>push('/a')\<close>, \<open>push('/b')\<close> and
  \<open>go(-1)\<close>, all succeeding, the current route is \<open>/a\<close> and the cursor is 0, the stack
  still holds \<open>/a\<close> and \<open>/b\<close>, and \<open>getCurrentLocation()\<close> returns \<open>/b\<close>, the full path of
  the last route of the stack. A following \<open>go(-5)\<close> changes nothing. In general,
  \<open>getCurrentLocation()\<close> is the full path of the last route of the stack, wherever the
  cursor is, or \<open>/\<close> when the stack is empty, and \<open>go(n)\<close> changes nothing when the
  cursor plus \<open>n\<close> is outside the stack.
\<close>

theorem scenario_push_push_back:
  "map_option (\<lambda>st. (fullPath (current st), index st, map fullPath (stack st),
                      getCurrentLocation st)) (scenario_ab f)
     = Some (''/a'', 0, [''/a'', ''/b''], ''/b'')
   \<and> (case scenario_ab f of None \<Rightarrow> False | Some st \<Rightarrow> go f st (- 5) = Some st)
   \<and> getCurrentLocation st
       = (if stack st = [] then ''/'' else fullPath (last (stack st)))
   \<and> (index st + n < 0 \<or> index st + n \<ge> int (length (stack st)) \<longrightarrow> go f st n = Some st)"
proof (intro conjI impI)
  show "map_option (\<lambda>st. (fullPath (current st), index st, map fullPath (stack st),
                      getCurrentLocation st)) (scenario_ab f)
     = Some (''/a'', 0, [''/a'', ''/b''], ''/b'')"
    by (simp add: scenario_ab_def scenario_simps)
  show "case scenario_ab f of None \<Rightarrow> False | Some st \<Rightarrow> go f st (- 5) = Some st"
    by (simp add: scenario_ab_def scenario_simps)
  show "getCurrentLocation st = (if stack st = [] then ''/'' else fullPath (last (stack st)))"
    by (cases "stack st" rule: rev_cases)
      (simp_all add: getCurrentLocation_def js_index_int_def)
  show "go f st n = Some st"
    if "index st + n < 0 \<or> index st + n \<ge> int (length (stack st))"
    using that by (simp add: go_def Let_def)
qed

theorem scenario_push_push_back_witness:
  "index at_a + (- 5) < 0
   \<and> go 0 at_a (- 5) = Some at_a
   \<and> go 0 at_a 1 = Some at_a
   \<and> getCurrentLocation at_a = ''/a''
   \<and> map_option getCurrentLocation (scenario_ab 0) = Some ''/b''"
proof -
  have h: "index at_a + (- 5) < 0 \<or> index at_a + (- 5) \<ge> int (length (stack at_a))"
    "index at_a + 1 < 0 \<or> index at_a + 1 \<ge> int (length (stack at_a))"
    by (simp_all add: at_a_eval)
  from scenario_push_push_back [of 0 at_a "- 5"] h(1)
  have 1: "go 0 at_a (- 5) = Some at_a"
    by blast
  from scenario_push_push_back [of 0 at_a 1] h(2)
  have 2: "go 0 at_a 1 = Some at_a"
    by blast
  from scenario_push_push_back [of 0 at_a 1]
  have 3: "getCurrentLocation at_a = ''/a''"
    by (simp add: at_a_eval demo_route_def)
  from scenario_push_push_back [of 0 at_a 1]
  have 4: "map_option getCurrentLocation (scenario_ab 0) = Some ''/b''"
    by (auto simp add: map_option_case split: option.splits)
  show ?thesis
    using 1 2 3 4 by (simp add: at_a_eval)
qed

section \<open>Relations that every run of the machine respects\<close>

lemma machine_rel_all:
  assumes "respected R"
  shows "\<forall>st'. runQueue f st T ph q = Some st' \<longrightarrow> R st st'"
    "\<forall>st'. iterator f st T ph q g = Some st' \<longrightarrow> R st st'"
    "\<forall>st'. guard_next f st T ph q g v = Some st' \<longrightarrow> R st st'"
    "\<forall>st'. resultHandler f st T ph q to = Some st' \<longrightarrow> R st st'"
    "\<forall>st'. push f st loc oc oa = Some st' \<longrightarrow> R st st'"
    "\<forall>st'. replace f st loc oc oa = Some st' \<longrightarrow> R st st'"
    "\<forall>st'. transitionTo f st loc otc oa = Some st' \<longrightarrow> R st st'"
    "\<forall>st'. confirmTransition f st r onC onA = Some st' \<longrightarrow> R st st'"
proof -
  note R = assms [unfolded respected_def]
  have rfl: "R s s" for s
    using R by simp
  have "\<forall>a b c. R a b \<longrightarrow> R b c \<longrightarrow> R a c"
    using R by simp
  then have trans: "R a c" if "R a b" "R b c" for a b c
    using that by (elim allE impE) assumption+
  have st_abort: "R s (abort s T err)" for s T err
    using R by simp
  have st_finish: "R s (finish s T cbs)" for s T cbs
    using R by simp
  have st_ensure: "R s (ensureURL s b)" for s b
    using R by simp
  have st_call: "R s (log s [GuardCall g a b])" for s g a b
    using R by simp
  have st_suspend: "R s (suspend s k)" for s k
    using R by simp
  have st_post: "R s (push_post_cb s cbs p)" for s cbs p
    using R by simp
  have st_array: "R s (s\<lparr>next_obj := Suc (next_obj s),
        postEnterCbs := (postEnterCbs s)(next_obj s := [])\<rparr>)" for s
    using R by simp
  have st_route: "R s (s\<lparr>next_obj := Suc (next_obj s)\<rparr>)" for s
    using R by simp
  have st_pending: "R s (s\<lparr>pending := Some r\<rparr>)" for s r
    using R by simp
  show "\<forall>st'. runQueue f st T ph q = Some st' \<longrightarrow> R st st'"
    "\<forall>st'. iterator f st T ph q g = Some st' \<longrightarrow> R st st'"
    "\<forall>st'. guard_next f st T ph q g v = Some st' \<longrightarrow> R st st'"
    "\<forall>st'. resultHandler f st T ph q to = Some st' \<longrightarrow> R st st'"
    "\<forall>st'. push f st loc oc oa = Some st' \<longrightarrow> R st st'"
    "\<forall>st'. replace f st loc oc oa = Some st' \<longrightarrow> R st st'"
    "\<forall>st'. transitionTo f st loc otc oa = Some st' \<longrightarrow> R st st'"
    "\<forall>st'. confirmTransition f st r onC onA = Some st' \<longrightarrow> R st st'"
proof (induction f st T ph q and f st T ph q g and f st T ph q g v and f st T ph q to
    and f st loc oc oa and f st loc oc oa and f st loc otc oa and f st r onC onA
    rule: runQueue_iterator_guard_next_resultHandler_push_replace_transitionTo_confirmTransition.induct)
  case (1 f st T act)
  from 1 [OF refl refl refl] st_array [of st] show ?case
    by (auto simp add: runQueue.simps Let_def intro: trans)
next
  case (2 f st T cbs)
  show ?case by (simp add: runQueue.simps st_finish)
next
  case (3 f st T ph q)
  then show ?case by (simp add: runQueue.simps)
next
  case (4 f st T ph g q)
  then show ?case by (simp add: runQueue.simps)
next
  case (5 f st T ph q g)
  show ?case
  proof (cases "pending_is st (t_route T)")
    case False
    then show ?thesis by (simp add: iterator.simps st_abort)
  next
    case True
    define st1 where "st1 = log st [GuardCall g (rid (t_route T)) (rid (t_current T))]"
    have s1: "R st st1" unfolding st1_def by (rule st_call)
    show ?thesis
    proof (cases "guard_action (router st1) g (t_route T) (t_current T)")
      case (Calls v)
      then have it: "iterator f st T ph q g = guard_next f st1 T ph q g v"
        using True by (simp add: iterator.simps Let_def st1_def)
      have "\<forall>st'. guard_next f st1 T ph q g v = Some st' \<longrightarrow> R st1 st'"
        using 5 [of st1 v] True Calls by (simp add: st1_def)
      then show ?thesis
        unfolding it using s1 trans by blast
    next
      case (Throws e)
      then have "iterator f st T ph q g = Some (abort st1 T e)"
        using True by (simp add: iterator.simps Let_def st1_def)
      then show ?thesis
        using trans [OF s1 st_abort] by simp
    next
      case Suspends
      then have "iterator f st T ph q g = Some (suspend st1
          \<lparr>k_transition = T, k_phase = ph, k_rest = q, k_guard = g\<rparr>)"
        using True by (simp add: iterator.simps Let_def st1_def)
      then show ?thesis
        using trans [OF s1 st_suspend] by simp
    qed
  qed
next
  case (6 f st T ph q g v)
  show ?case
  proof (cases g)
    case (Plain h)
    with 6(1) show ?thesis by (simp add: guard_next.simps)
  next
    case (Bound h i)
    with 6(2) show ?thesis by (simp add: guard_next.simps)
  next
    case (AsyncStep ms)
    with 6(4) show ?thesis by (simp add: guard_next.simps)
  next
    case (EnterGuard h m k cbs)
    have IH: "\<forall>st'. resultHandler f st T ph q v = Some st' \<longrightarrow> R st st'"
      using 6(3) EnterGuard by simp
    show ?thesis
    proof (intro allI impI)
      fix st' assume a: "guard_next f st T ph q g v = Some st'"
      then obtain st1 where r: "resultHandler f st T ph q v = Some st1"
        and st': "st' = (case v of
                       Fun c \<Rightarrow> push_post_cb st1 cbs
                         \<lparr>pc_cb = c, pc_entry = eid m, pc_key = k, pc_route = rid (t_route T)\<rparr>
                     | _ \<Rightarrow> st1)"
        unfolding EnterGuard by (auto simp: guard_next.simps split: option.splits)
      have "R st1 st'"
        unfolding st' by (cases v) (simp_all add: rfl st_post)
      with IH r show "R st st'"
        using trans by blast
    qed
  qed
next
  case (7 f st T ph q to)
  show ?case
  proof (cases "to = Bool False \<or> isError to")
    case True
    then have "resultHandler f st T ph q to = Some (abort (ensureURL st True) T to)"
      by (simp add: resultHandler.simps)
    then show ?thesis
      using trans [OF st_ensure st_abort] by simp
  next
    case False
    show ?thesis
    proof (cases "redirect_target to")
      case None
      with False have "resultHandler f st T ph q to = runQueue f st T ph q"
        by (simp add: resultHandler.simps)
      with 7(1) False None show ?thesis by simp
    next
      case (Some loc)
      show ?thesis
      proof (cases f)
        case 0
        with False Some show ?thesis by (simp add: resultHandler.simps)
      next
        case (Suc n)
        define st1 where "st1 = abort st T Undefined"
        have s1: "R st st1" unfolding st1_def by (rule st_abort)
        show ?thesis
        proof (cases "wants_replace to")
          case True
          then have "resultHandler f st T ph q to = replace n st1 loc None None"
            using False Some Suc by (simp add: resultHandler.simps Let_def st1_def)
          moreover have "\<forall>st'. replace n st1 loc None None = Some st' \<longrightarrow> R st1 st'"
            using 7(2) [OF False Some Suc, of st1] True by (simp add: st1_def)
          ultimately show ?thesis using s1 trans by (metis (no_types))
        next
          case nr: False
          then have "resultHandler f st T ph q to = push n st1 loc None None"
            using False Some Suc by (simp add: resultHandler.simps Let_def st1_def)
          moreover have "\<forall>st'. push n st1 loc None None = Some st' \<longrightarrow> R st1 st'"
            using 7(3) [OF False Some Suc, of st1] nr by (simp add: st1_def)
          ultimately show ?thesis using s1 trans by (metis (no_types))
        qed
      qed
    qed
  qed
next
  case (8 f st loc onComplete onAbort)
  then show ?case by (simp add: push.simps)
next
  case (9 f st loc onComplete onAbort)
  then show ?case by (simp add: replace.simps)
next
  case (10 f st loc onComplete onAbort)
  from 10 [OF refl refl] st_route [of st] show ?case
    by (auto simp add: transitionTo.simps Let_def intro: trans)
next
  case (11 f st r onComplete onAbort)
  show ?case
  proof (cases "isSameRoute r (current st) \<and> length (matched r) = length (matched (current st))")
    case True
    then have "confirmTransition f st r onComplete onAbort =
        Some (abort (ensureURL st False) \<lparr>t_route = r, t_current = current st,
          t_onComplete = onComplete, t_onAbort = onAbort\<rparr> Undefined)"
      by (simp add: confirmTransition.simps Let_def)
    then show ?thesis
      using trans [OF st_ensure st_abort] by simp
  next
    case False
    from 11 [OF refl refl False refl refl refl] st_pending [of st r] False show ?thesis
      by (auto simp add: confirmTransition.simps Let_def intro: trans)
  qed
qed
qed

section \<open>The ready queues\<close>

lemma steady_refl: "steady s s"
  by (simp add: steady_def)

lemma steady_trans:
  assumes "steady a b" "steady b c"
  shows "steady a c"
proof (cases "ready a")
  case False
  then show ?thesis by (simp add: steady_def)
next
  case True
  with assms(1) obtain e1 where 1: "ready b" "trace b = trace a @ e1" "filter is_drain e1 = []"
    unfolding steady_def by blast
  with assms(2) obtain e2 where 2: "ready c" "trace c = trace b @ e2" "filter is_drain e2 = []"
    unfolding steady_def by blast
  have "trace c = trace a @ (e1 @ e2)" "filter is_drain (e1 @ e2) = []"
    using 1 2 by simp_all
  with 2(1) show ?thesis
    unfolding steady_def by blast
qed

lemma steady_log: "filter is_drain evs = [] \<Longrightarrow> steady s (log s evs)"
  by (auto simp add: steady_def log_def)

lemma steady_fields:
  "ready s' = ready s \<Longrightarrow> trace s' = trace s \<Longrightarrow> steady s s'"
  by (simp add: steady_def)

lemma onAbort_calls_no_drain: "filter is_drain (onAbort_calls T err) = []"
  by (cases "t_onAbort T"; cases "the (t_onAbort T)")
    (auto simp: onAbort_calls_def split: option.splits)

lemma abort_trace_ready:
  assumes "ready st"
  shows "trace (abort st T err) = trace st
     @ (if isError err then
          (if errorCbs st \<noteq> [] then map (\<lambda>c. ErrorCb c err) (errorCbs st) else [Warn err])
        else [])
     @ onAbort_calls T err"
proof (cases "t_onAbort T")
  case None
  then show ?thesis
    by (simp add: abort_def onAbort_calls_def log_def)
next
  case (Some oa)
  then show ?thesis
    using assms
    by (cases oa) (simp add: abort_def onAbort_calls_def log_def Let_def split: option.splits)
qed

lemma steady_abort: "steady s (abort s T err)"
proof (cases "ready s")
  case False
  then show ?thesis by (simp add: steady_def)
next
  case True
  have "filter is_drain ((if isError err then
          (if errorCbs s \<noteq> [] then map (\<lambda>c. ErrorCb c err) (errorCbs s) else [Warn err])
        else []) @ onAbort_calls T err) = []"
    by (simp add: onAbort_calls_no_drain filter_map comp_def)
  then show ?thesis
    unfolding steady_def using True abort_trace_ready [OF True, of T err]
    by (auto simp add: abort_ready)
qed

lemma updateRoute_calls_no_drain: "filter is_drain (updateRoute_calls st r) = []"
proof -
  have "filter is_drain (concat (map (\<lambda>h. case h of
      Some h' \<Rightarrow> [AfterHook h' (rid r) (rid (current st))] | None \<Rightarrow> []) hs)) = []" for hs
    by (induction hs) (auto split: option.splits)
  then show ?thesis
    by (simp add: updateRoute_calls_def split: option.splits)
qed

lemma tt_complete_calls_no_drain: "filter is_drain (tt_complete_calls c r) = []"
  by (cases c; cases "the c") (auto simp: tt_complete_calls_def split: option.splits)

lemma call_onComplete_transitionTo:
  "ready (call_onComplete st (TransitionToComplete c) r)
   \<and> readyCbs (call_onComplete st (TransitionToComplete c) r) = readyCbs st
   \<and> trace (call_onComplete st (TransitionToComplete c) r) = trace st
       @ updateRoute_calls st r @ tt_complete_calls c r @ [EnsureURL False]
       @ (if ready st then [] else map (\<lambda>x. ReadyCb x (Some (rid r))) (readyCbs st))"
proof -
  define st1 where "st1 = updateRoute st r"
  define st2 where "st2 = (case c of Some c' \<Rightarrow> call_tt_complete st1 c' r | None \<Rightarrow> st1)"
  define st3 where "st3 = ensureURL st2 False"
  have res: "call_onComplete st (TransitionToComplete c) r = (if \<not> ready st3
         then log (st3\<lparr>ready := True\<rparr>) (map (\<lambda>c. ReadyCb c (Some (rid r))) (readyCbs st3))
         else st3)"
    unfolding call_onComplete.simps Let_def st3_def st2_def st1_def by (rule refl)
  have t1: "trace st1 = trace st @ updateRoute_calls st r"
    unfolding st1_def updateRoute_calls_def by (rule updateRoute_trace)
  have f1: "ready st1 = ready st" "readyCbs st1 = readyCbs st"
    unfolding st1_def by (simp_all add: updateRoute_fields)
  have t2: "trace st2 = trace st1 @ tt_complete_calls c r"
    unfolding st2_def
    by (cases c; cases "the c")
      (auto simp: tt_complete_calls_def Let_def log_def split: option.splits)
  have f2: "ready st2 = ready st1" "readyCbs st2 = readyCbs st1"
    unfolding st2_def by (cases c; simp add: call_tt_complete_fields)+
  have f3: "ready st3 = ready st" "readyCbs st3 = readyCbs st"
    "trace st3 = trace st @ updateRoute_calls st r @ tt_complete_calls c r @ [EnsureURL False]"
    by (simp_all add: st3_def ensureURL_def log_def f2 f1 t2 t1)
  show ?thesis
    unfolding res by (simp add: f3 log_def)
qed

lemma steady_call_onComplete: "steady s (call_onComplete s oc r)"
proof (cases oc)
  case (TransitionToComplete c)
  show ?thesis
    unfolding TransitionToComplete steady_def
    using call_onComplete_transitionTo [of s c r]
    by (auto simp add: updateRoute_calls_no_drain tt_complete_calls_no_drain)
next
  case (GoComplete i)
  have "trace (updateRoute (s\<lparr>index := i\<rparr>) r) = trace s @ updateRoute_calls s r"
    using updateRoute_trace [of "s\<lparr>index := i\<rparr>" r]
    by (simp add: updateRoute_calls_def cong: option.case_cong)
  then show ?thesis
    unfolding GoComplete steady_def
    by (auto simp add: updateRoute_fields updateRoute_calls_no_drain)
qed

lemma steady_finish: "steady s (finish s T cbs)"
proof (cases "pending_is s (t_route T)")
  case False
  then show ?thesis by (simp add: finish_def steady_abort)
next
  case True
  define s1 where "s1 = log (s\<lparr>pending := None\<rparr>) [OnComplete (rid (t_route T))]"
  define s2 where "s2 = call_onComplete s1 (t_onComplete T) (t_route T)"
  have "steady s s1"
    unfolding steady_def s1_def by (auto simp add: log_def)
  moreover have "steady s1 s2"
    unfolding s2_def by (rule steady_call_onComplete)
  moreover have "steady s2 (if app (router s2) then s2\<lparr>nextTick := nextTick s2 @ [cbs]\<rparr> else s2)"
    by (simp add: steady_def)
  ultimately have "steady s (if app (router s2) then s2\<lparr>nextTick := nextTick s2 @ [cbs]\<rparr> else s2)"
    using steady_trans by blast
  then show ?thesis
    using True unfolding finish_def s2_def s1_def Let_def by simp
qed

lemma respected_steady: "respected steady"
  unfolding respected_def
proof (intro conjI allI impI)
  show "steady s s" for s
    by (rule steady_refl)
  show "steady a c" if "steady a b" "steady b c" for a b c
    using that by (rule steady_trans)
  show "steady s (abort s T err)" for s T err
    by (rule steady_abort)
  show "steady s (finish s T cbs)" for s T cbs
    by (rule steady_finish)
  show "steady s (ensureURL s b)" for s b
    unfolding ensureURL_def by (rule steady_log) simp
  show "steady s (log s [GuardCall g a b])" for s g a b
    by (rule steady_log) simp
  show "steady s (suspend s k)" for s k
    by (simp add: steady_def suspend_def)
  show "steady s (push_post_cb s cbs p)" for s cbs p
    by (simp add: steady_def push_post_cb_def)
  show "steady s (s\<lparr>next_obj := Suc (next_obj s),
        postEnterCbs := (postEnterCbs s)(next_obj s := [])\<rparr>)" for s
    by (simp add: steady_def)
  show "steady s (s\<lparr>next_obj := Suc (next_obj s)\<rparr>)" for s
    by (simp add: steady_def)
  show "steady s (s\<lparr>pending := Some r\<rparr>)" for s r
    by (simp add: steady_def)
qed

lemma machine_steady:
  "transitionTo f st loc otc oa = Some st' \<Longrightarrow> steady st st'"
  "guard_next f st T ph q g v = Some st' \<Longrightarrow> steady st st'"
  "confirmTransition f st r onC onA = Some st' \<Longrightarrow> steady st st'"
  "push f st loc oc oa = Some st' \<Longrightarrow> steady st st'"
  "replace f st loc oc oa = Some st' \<Longrightarrow> steady st st'"
proof -
  show "transitionTo f st loc otc oa = Some st' \<Longrightarrow> steady st st'"
    using machine_rel_all(7) [OF respected_steady] by blast
  show "guard_next f st T ph q g v = Some st' \<Longrightarrow> steady st st'"
    using machine_rel_all(3) [OF respected_steady] by blast
  show "confirmTransition f st r onC onA = Some st' \<Longrightarrow> steady st st'"
    using machine_rel_all(8) [OF respected_steady] by blast
  show "push f st loc oc oa = Some st' \<Longrightarrow> steady st st'"
    using machine_rel_all(5) [OF respected_steady] by blast
  show "replace f st loc oc oa = Some st' \<Longrightarrow> steady st st'"
    using machine_rel_all(6) [OF respected_steady] by blast
qed

lemma go_steady:
  assumes "go f st n = Some st'"
  shows "steady st st'"
proof (cases "index st + n < 0 \<or> index st + n \<ge> int (length (stack st))")
  case True
  with assms have "st' = st" by (simp add: go_def Let_def)
  then show ?thesis by (simp add: steady_refl)
next
  case False
  define r where "r = stack st ! nat (index st + n)"
  from assms False have "confirmTransition f st r (GoComplete (index st + n)) None = Some st'"
    by (simp add: go_def Let_def r_def)
  then show ?thesis by (rule machine_steady(3))
qed

lemma steady_new:
  assumes "steady st st'" "ready st"
  shows "ready st' \<and> filter is_drain (drop (length (trace st)) (trace st')) = []"
proof -
  from assms obtain evs where "ready st'" "trace st' = trace st @ evs" "filter is_drain evs = []"
    unfolding steady_def by blast
  then show ?thesis by simp
qed

lemma call_onAbort_ready:
  "ready (call_onAbort st (TransitionToAbort u) err) = (ready st \<or> truthy err)
   \<and> trace (call_onAbort st (TransitionToAbort u) err) = trace st
       @ (case u of Some c \<Rightarrow> [UserOnAbort c err] | None \<Rightarrow> [])
       @ (if truthy err \<and> \<not> ready st then map (\<lambda>c. ReadyErrorCb c err) (readyErrorCbs st)
          else [])"
  by (cases u) (auto simp add: Let_def log_def)

text \<open>
  C7, as stated, fails: a ready callback and a ready-error callback are registered; the
  first transition aborts with an error, which sets the ready flag and drains the
  ready-error queue; the next transition is the first to complete, and the ready callback
  is not called, then or ever.
\<close>

theorem first_success_after_error_drains_nothing:
  "map_option (\<lambda>s. (ready s, readyCbs s, trace s))
     (Option.bind (transitionTo 0 (onReady (init failing_router) 1 (Some 2))
                 (LocString ''/a'') None None)
        (\<lambda>s. transitionTo 0 s (LocString ''/b'') None None))
   = Some (True, [1],
       [GuardCall (Plain 1) 1 0, Warn (Error 5), OnAbort 1 (Error 5), ReadyErrorCb 2 (Error 5),
        GuardCall (Plain 1) 2 0, GuardCall (AsyncStep [ent 1]) 2 0, OnComplete 2,
        EnsureURL False])"
  by (simp add: failing_router_def scenario_simps)

text \<open>
  C7 (as amended). The completion callback of \<open>transitionTo\<close> sets the ready flag; when
  the flag was unset it calls every queued ready callback once, in order, with the
  route, and when the flag was set it calls none. The abort callback of \<open>transitionTo\<close>
  drains the ready-error queue and sets the flag exactly when the flag was unset and
  the value it received is truthy (an error); with \<open>undefined\<close> or \<open>false\<close> it drains
  nothing and leaves the flag. \<open>onReady\<close> calls its callback at once, and queues nothing,
  when the flag is set, and only queues otherwise. Once the flag is set, no run of
  \<open>transitionTo\<close>, \<open>go\<close> or of a suspended guard's continuation unsets it or drains a
  queue: each queue is drained at most once, and the ready queue only if a transition
  completes before any aborts with an error.
\<close>

theorem ready_queues_drain_at_most_once:
  "ready (call_onComplete st (TransitionToComplete c) r)
   \<and> filter is_drain (drop (length (trace st))
         (trace (call_onComplete st (TransitionToComplete c) r)))
       = (if ready st then [] else map (\<lambda>x. ReadyCb x (Some (rid r))) (readyCbs st))
   \<and> ready (call_onAbort st (TransitionToAbort u) err) = (ready st \<or> truthy err)
   \<and> filter is_drain (drop (length (trace st))
         (trace (call_onAbort st (TransitionToAbort u) err)))
       = (if truthy err \<and> \<not> ready st then map (\<lambda>x. ReadyErrorCb x err) (readyErrorCbs st)
          else [])
   \<and> \<not> truthy Undefined \<and> \<not> truthy (Bool False) \<and> truthy (Error e)
   \<and> onReady st x errorCb =
       (if ready st then log st [ReadyCb x None]
        else st\<lparr>readyCbs := readyCbs st @ [x],
                readyErrorCbs := readyErrorCbs st
                  @ (case errorCb of Some y \<Rightarrow> [y] | None \<Rightarrow> [])\<rparr>)
   \<and> (\<forall>st'. ready st \<and> (transitionTo f st loc onComplete onAbort = Some st'
                         \<or> go f st n = Some st' \<or> resume f st k v = Some st') \<longrightarrow>
         ready st' \<and> filter is_drain (drop (length (trace st)) (trace st')) = [])"
proof (intro conjI allI impI)
  show "ready (call_onComplete st (TransitionToComplete c) r)"
    using call_onComplete_transitionTo [of st c r] by blast
  show "filter is_drain (drop (length (trace st))
         (trace (call_onComplete st (TransitionToComplete c) r)))
       = (if ready st then [] else map (\<lambda>x. ReadyCb x (Some (rid r))) (readyCbs st))"
    using call_onComplete_transitionTo [of st c r]
    by (simp add: updateRoute_calls_no_drain tt_complete_calls_no_drain filter_map comp_def)
  show "ready (call_onAbort st (TransitionToAbort u) err) = (ready st \<or> truthy err)"
    using call_onAbort_ready [of st u err] by blast
  show "filter is_drain (drop (length (trace st))
         (trace (call_onAbort st (TransitionToAbort u) err)))
       = (if truthy err \<and> \<not> ready st then map (\<lambda>x. ReadyErrorCb x err) (readyErrorCbs st)
          else [])"
    using call_onAbort_ready [of st u err]
    by (cases u) (simp_all add: filter_map comp_def)
  show "\<not> truthy Undefined" "\<not> truthy (Bool False)" "truthy (Error e)"
    by simp_all
  show "onReady st x errorCb =
       (if ready st then log st [ReadyCb x None]
        else st\<lparr>readyCbs := readyCbs st @ [x],
                readyErrorCbs := readyErrorCbs st
                  @ (case errorCb of Some y \<Rightarrow> [y] | None \<Rightarrow> [])\<rparr>)"
    by (cases errorCb) (simp_all add: onReady_def Let_def)
next
  fix st'
  assume a: "ready st \<and> (transitionTo f st loc onComplete onAbort = Some st'
                         \<or> go f st n = Some st' \<or> resume f st k v = Some st')"
  then have "steady st st'"
    using machine_steady(1) go_steady machine_steady(2) unfolding resume_def by blast
  with a have "ready st' \<and> filter is_drain (drop (length (trace st)) (trace st')) = []"
    using steady_new by blast
  then show "ready st'" "filter is_drain (drop (length (trace st)) (trace st')) = []"
    by blast+
qed

theorem ready_queues_drain_at_most_once_witness:
  "ready at_a
   \<and> map_option (\<lambda>s. (ready s, filter is_drain (drop (length (trace at_a)) (trace s))))
       (transitionTo 0 at_a (LocString ''/b'') None None) = Some (True, [])
   \<and> filter is_drain (trace (call_onComplete (onReady (init plain_router) 1 (Some 2))
         (TransitionToComplete None) (demo_route ''/a'')))
       = [ReadyCb 1 (Some 0)]
   \<and> filter is_drain (trace (call_onAbort (onReady (init plain_router) 1 (Some 2))
         (TransitionToAbort None) (Error 5)))
       = [ReadyErrorCb 2 (Error 5)]
   \<and> filter is_drain (trace (call_onAbort (onReady (init plain_router) 1 (Some 2))
         (TransitionToAbort None) (Bool False))) = []
   \<and> onReady at_a 6 None = log at_a [ReadyCb 6 None]"
proof -
  obtain s where s: "transitionTo 0 at_a (LocString ''/b'') None None = Some s"
    using machine_total_all(7) [of at_a 0 "LocString ''/b''" None None] no_redirect_plain
    by (auto simp add: at_a_eval)
  note t = ready_queues_drain_at_most_once [of at_a None "demo_route ''/a''" None Undefined 0 6
      None 0 "LocString ''/b''" None None 0 undefined undefined]
  from t s have 1: "ready s \<and> filter is_drain (drop (length (trace at_a)) (trace s)) = []"
    by (simp add: at_a_eval)
  from t have 2: "onReady at_a 6 None = log at_a [ReadyCb 6 None]"
    by (simp add: at_a_eval)
  note u = ready_queues_drain_at_most_once [of "onReady (init plain_router) 1 (Some 2)" None
      "demo_route ''/a''" None "Error 5" 0 6 None 0 "LocString ''/b''" None None 0
      undefined undefined]
  from u have 3: "filter is_drain (trace (call_onComplete (onReady (init plain_router) 1 (Some 2))
         (TransitionToComplete None) (demo_route ''/a'')))
       = [ReadyCb 1 (Some 0)]"
    by (simp add: onReady_def init_def demo_route_def)
  from u have 4: "filter is_drain (trace (call_onAbort (onReady (init plain_router) 1 (Some 2))
         (TransitionToAbort None) (Error 5)))
       = [ReadyErrorCb 2 (Error 5)]"
    by (simp add: onReady_def init_def)
  have 5: "filter is_drain (trace (call_onAbort (onReady (init plain_router) 1 (Some 2))
         (TransitionToAbort None) (Bool False))) = []"
    using ready_queues_drain_at_most_once [of "onReady (init plain_router) 1 (Some 2)" None
      "demo_route ''/a''" None "Bool False" 0 6 None 0 "LocString ''/b''" None None 0
      undefined undefined]
    by (simp add: onReady_def init_def)
  show ?thesis
    using s 1 2 3 4 5 by (simp add: at_a_eval)
qed

section \<open>Deferred callbacks of enter guards\<close>

lemmas poll_simps = entered_def waiting_def enter_router_def enter_entry_def
  bindEnterGuard_def poll_def run_nextTick_def fire_timer_def register_instance_def
  isValid_def

lemma entered_eval:
  "pending entered = None" "rid (current entered) = 1" "timers entered = [(16, waiting)]"
  "instances entered = (\<lambda>m k. None)" "nextTick entered = []"
  "filter (\<lambda>e. case e of Deliver c i \<Rightarrow> True | _ \<Rightarrow> False) (trace entered) = []"
  by (simp_all add: poll_simps scenario_simps)

text \<open>
  C9, as stated, fails. After the navigation has been confirmed the pending slot is empty,
  so the pending route is not the one the guard belongs to; yet the poll that finds no
  instance sets a timer, every timer that fires sets the next one, and when the instance
  is registered the callback is called with it. What the poll checks is \<open>current\<close>.
\<close>

theorem poll_goes_on_without_pending:
  "pending entered = None
   \<and> timers entered = [(16, waiting)]
   \<and> fire_timer entered = entered
   \<and> trace (fire_timer (register_instance entered 1 ''default'' 4))
       = trace entered @ [Deliver 9 4]"
proof -
  have "fire_timer entered = poll (entered\<lparr>timers := []\<rparr>) waiting"
    by (simp add: fire_timer_def entered_eval)
  also have "\<dots> = (entered\<lparr>timers := []\<rparr>)\<lparr>timers := [(16, waiting)]\<rparr>"
    by (simp add: poll_def isValid_def entered_eval waiting_def)
  also have "\<dots> = entered"
    using entered_eval(3) by (cases entered) simp
  finally have 1: "fire_timer entered = entered" .
  have 2: "trace (fire_timer (register_instance entered 1 ''default'' 4))
       = trace entered @ [Deliver 9 4]"
    by (simp add: fire_timer_def register_instance_def poll_def entered_eval waiting_def
        log_def)
  show ?thesis
    using 1 2 by (simp add: entered_eval)
qed

text \<open>
  C9 (as amended). A function that a \<open>beforeRouteEnter\<close> guard passes to its
  continuation is first handed on to the queue and then added to the post-enter
  callbacks of the transition, with the route record, the key and the route of the
  guard. Each poll reads the instance map of that route record at that time: if an
  instance is registered under the key, the callback is called with it (whatever
  \<open>current\<close> and the pending slot hold); if none is and \<open>current\<close> is, by identity, the
  route of the guard, one timer of 16 ms is set, which runs the same poll again, and the
  callback is not called; if none is and \<open>current\<close> is another route, nothing is called
  and no timer is set: the polling ends and the callback is dropped.
\<close>

theorem poll_delivers_or_waits_on_current:
  "guard_next f st T ph q (EnterGuard h m key cbs) (Fun c)
     = map_option (\<lambda>s. push_post_cb s cbs
         \<lparr>pc_cb = c, pc_entry = eid m, pc_key = key, pc_route = rid (t_route T)\<rparr>)
       (resultHandler f st T ph q (Fun c))
   \<and> (\<forall>i. instances st (pc_entry p) (pc_key p) = Some i \<longrightarrow>
         poll st p = log st [Deliver (pc_cb p) i])
   \<and> (instances st (pc_entry p) (pc_key p) = None \<and> rid (current st) = pc_route p \<longrightarrow>
         poll st p = st\<lparr>timers := timers st @ [(16, p)]\<rparr>)
   \<and> (instances st (pc_entry p) (pc_key p) = None \<and> rid (current st) \<noteq> pc_route p \<longrightarrow>
         poll st p = st)
   \<and> (\<forall>d rest. timers st = (d, p) # rest \<longrightarrow>
         fire_timer st = poll (st\<lparr>timers := rest\<rparr>) p)"
  by (auto simp add: guard_next.simps poll_def isValid_def fire_timer_def
      split: option.splits)

theorem poll_delivers_or_waits_on_current_witness:
  "instances entered (pc_entry waiting) (pc_key waiting) = None
   \<and> rid (current entered) = pc_route waiting
   \<and> poll entered waiting = entered\<lparr>timers := timers entered @ [(16, waiting)]\<rparr>
   \<and> timers entered = (16, waiting) # []
   \<and> fire_timer entered = poll (entered\<lparr>timers := []\<rparr>) waiting
   \<and> rid (current (entered\<lparr>current := START\<rparr>)) \<noteq> pc_route waiting
   \<and> poll (entered\<lparr>current := START\<rparr>) waiting = entered\<lparr>current := START\<rparr>
   \<and> poll (register_instance entered 1 ''default'' 4) waiting
       = log (register_instance entered 1 ''default'' 4) [Deliver 9 4]"
proof -
  have a: "instances entered (pc_entry waiting) (pc_key waiting) = None"
    "rid (current entered) = pc_route waiting" "timers entered = (16, waiting) # []"
    by (simp_all add: entered_eval waiting_def)
  have b: "instances (entered\<lparr>current := START\<rparr>) (pc_entry waiting) (pc_key waiting) = None"
    "rid (current (entered\<lparr>current := START\<rparr>)) \<noteq> pc_route waiting"
    by (simp_all add: entered_eval waiting_def START_def)
  have c: "instances (register_instance entered 1 ''default'' 4) (pc_entry waiting)
      (pc_key waiting) = Some 4"
    by (simp add: register_instance_def waiting_def)
  from poll_delivers_or_waits_on_current [of 0 entered undefined undefined undefined
      undefined undefined undefined undefined undefined waiting] a
  have 1: "poll entered waiting = entered\<lparr>timers := timers entered @ [(16, waiting)]\<rparr>"
    and 2: "fire_timer entered = poll (entered\<lparr>timers := []\<rparr>) waiting"
    by blast+
  from poll_delivers_or_waits_on_current [of 0 "entered\<lparr>current := START\<rparr>" undefined
      undefined undefined undefined undefined undefined undefined undefined waiting] b
  have 3: "poll (entered\<lparr>current := START\<rparr>) waiting = entered\<lparr>current := START\<rparr>"
    by blast
  from poll_delivers_or_waits_on_current [of 0 "register_instance entered 1 ''default'' 4"
      undefined undefined undefined undefined undefined undefined undefined undefined waiting] c
  have 4: "poll (register_instance entered 1 ''default'' 4) waiting
       = log (register_instance entered 1 ''default'' 4) [Deliver 9 4]"
    by (simp add: waiting_def)
  show ?thesis
    using a b(2) 1 2 3 4 by blast
qed

section \<open>Redirects\<close>

lemma evolve_old_route:
  assumes "evolve A g st st'" "r \<notin> A" "r < next_obj st"
  shows "OnComplete r \<notin> set (drop (length (trace st)) (trace st'))"
    and "current st' = current st \<or> rid (current st') \<noteq> r"
    and "pending st' = pending st \<or> map_option rid (pending st') \<noteq> Some r"
proof -
  from assms(1) obtain evs where 1: "trace st' = trace st @ evs"
    "\<And>x. OnComplete x \<in> set evs \<Longrightarrow> x \<in> A \<or> next_obj st \<le> x"
    "current st' = current st \<or> OnComplete (rid (current st')) \<in> set evs"
    "pending st' = pending st \<or> pending st' = None \<or>
       (\<exists>p. pending st' = Some p \<and> (rid p \<in> A \<or> next_obj st \<le> rid p))"
    unfolding evolve_def by blast
  have n: "OnComplete r \<notin> set evs"
    using 1(2) [of r] assms(2,3) by auto
  then show "OnComplete r \<notin> set (drop (length (trace st)) (trace st'))"
    by (simp add: 1(1))
  show "current st' = current st \<or> rid (current st') \<noteq> r"
    using 1(3) n by auto
  show "pending st' = pending st \<or> map_option rid (pending st') \<noteq> Some r"
    using 1(4) assms(2,3) by auto
qed

lemma guard_next_redirect:
  assumes "redirect_target to = Some loc"
  shows "guard_next (Suc n) st T ph q g to =
           (if wants_replace to then replace n (abort st T Undefined) loc None None
            else push n (abort st T Undefined) loc None None)"
proof -
  have nf: "to \<noteq> Bool False" "\<not> isError to" "\<not> is_function to"
    using assms by (cases to; simp)+
  then have r: "resultHandler (Suc n) st T ph q to =
           (if wants_replace to then replace n (abort st T Undefined) loc None None
            else push n (abort st T Undefined) loc None None)"
    using assms by (simp add: resultHandler.simps Let_def)
  have "guard_next (Suc n) st T ph q g to = resultHandler (Suc n) st T ph q to"
    using nf by (cases g; cases to) (simp_all add: guard_next.simps split: option.splits)
  with r show ?thesis by simp
qed

text \<open>
  C4. When a checkpoint calls its continuation with a redirect target, the transition
  aborts with no error value (only the per-call abort callback is called, no global
  error callback and no warning) and then issues one navigation to that target, with
  no callbacks:
  \<^item> a string \<open>s\<close> is passed to \<open>push\<close>;
  \<^item> an object with a \<open>path\<close> or a \<open>name\<close> is passed to \<open>replace\<close> if its \<open>replace\<close>
    field is truthy, and to \<open>push\<close> if it is not.
  Whatever that navigation does, the completion callback of the original transition is
  not called and its route does not become \<open>current\<close>.
\<close>

theorem redirect_issues_one_navigation:
  assumes "rid (t_route T) < next_obj st"
  shows "guard_next (Suc n) st T ph q g (Str s)
           = push n (abort st T Undefined) (LocString s) None None
     \<and> (lo_path l \<noteq> None \<or> lo_name l \<noteq> None \<longrightarrow>
          guard_next (Suc n) st T ph q g (Obj l)
            = (if lo_replace l
               then replace n (abort st T Undefined) (LocObject l) None None
               else push n (abort st T Undefined) (LocObject l) None None))
     \<and> abort st T Undefined = log st (onAbort_calls T Undefined)
     \<and> (\<forall>c e. ErrorCb c e \<notin> set (onAbort_calls T Undefined))
     \<and> (\<forall>e. Warn e \<notin> set (onAbort_calls T Undefined))
     \<and> (\<forall>to st'.
          ((\<exists>s'. to = Str s') \<or> (\<exists>l'. to = Obj l' \<and> (lo_path l' \<noteq> None \<or> lo_name l' \<noteq> None)))
          \<and> guard_next (Suc n) st T ph q g to = Some st' \<longrightarrow>
            OnComplete (rid (t_route T)) \<notin> set (drop (length (trace st)) (trace st'))
            \<and> (current st' = current st \<or> rid (current st') \<noteq> rid (t_route T)))"
proof -
  define st1 where "st1 = abort st T Undefined"
  have str: "guard_next (Suc n) st T ph q g (Str s') = push n st1 (LocString s') None None"
    for s'
    unfolding st1_def using guard_next_redirect [of "Str s'" "LocString s'" n st T ph q g]
    by simp
  have obj: "guard_next (Suc n) st T ph q g (Obj l')
            = (if lo_replace l' then replace n st1 (LocObject l') None None
               else push n st1 (LocObject l') None None)"
    if "lo_path l' \<noteq> None \<or> lo_name l' \<noteq> None" for l'
    unfolding st1_def using guard_next_redirect [of "Obj l'" "LocObject l'" n st T ph q g] that
    by simp
  have sil: "abort st T Undefined = log st (onAbort_calls T Undefined)"
    by (rule abort_silent) simp_all
  have q: "quiet st st1"
    unfolding st1_def by (rule quiet_abort)
  have later: "OnComplete (rid (t_route T)) \<notin> set (drop (length (trace st)) (trace st'))
           \<and> (current st' = current st \<or> rid (current st') \<noteq> rid (t_route T))"
    if t: "(\<exists>s'. to = Str s') \<or> (\<exists>l'. to = Obj l' \<and> (lo_path l' \<noteq> None \<or> lo_name l' \<noteq> None))"
      and r: "guard_next (Suc n) st T ph q g to = Some st'" for to st'
  proof -
    have "\<exists>loc. replace n st1 loc None None = Some st'
        \<or> push n st1 loc None None = Some st'"
    proof (cases to)
      case (Str s')
      with r str [of s'] show ?thesis by auto
    next
      case (Obj l')
      with t have "lo_path l' \<noteq> None \<or> lo_name l' \<noteq> None" by simp
      with r obj [of l'] Obj show ?thesis by (cases "lo_replace l'") auto
    qed (use t in auto)
    then have "evolve {} True st1 st'"
      using machine_evolve_all(5,6) by blast
    with q have "evolve {} True st st'"
      by (rule quiet_evolve)
    then show ?thesis
      using evolve_old_route(1,2) [of "{}" True st st' "rid (t_route T)"] assms by simp
  qed
  have 1: "guard_next (Suc n) st T ph q g (Str s)
           = push n (abort st T Undefined) (LocString s) None None"
    using str [of s] by (simp add: st1_def)
  have 2: "lo_path l \<noteq> None \<or> lo_name l \<noteq> None \<longrightarrow>
          guard_next (Suc n) st T ph q g (Obj l)
            = (if lo_replace l
               then replace n (abort st T Undefined) (LocObject l) None None
               else push n (abort st T Undefined) (LocObject l) None None)"
    using obj [of l] by (simp add: st1_def)
  have 3: "\<forall>c e. ErrorCb c e \<notin> set (onAbort_calls T Undefined)"
    "\<forall>e. Warn e \<notin> set (onAbort_calls T Undefined)"
    by (simp_all add: onAbort_calls_kinds)
  have 4: "\<forall>to st'.
          ((\<exists>s'. to = Str s') \<or> (\<exists>l'. to = Obj l' \<and> (lo_path l' \<noteq> None \<or> lo_name l' \<noteq> None)))
          \<and> guard_next (Suc n) st T ph q g to = Some st' \<longrightarrow>
            OnComplete (rid (t_route T)) \<notin> set (drop (length (trace st)) (trace st'))
            \<and> (current st' = current st \<or> rid (current st') \<noteq> rid (t_route T))"
    using later by blast
  show ?thesis
    by (intro conjI 1 2 sil 3 4)
qed

lemma redirected_eval:
  "redirected (Obj y_replacing) = Some (''/y'', 2, [2], -1,
     [OnAbort 1 Undefined, UserOnAbort 5 Undefined, GuardCall (Plain 1) 2 0,
      GuardCall (AsyncStep [ent 1]) 2 0, OnComplete 2, EnsureURL False])"
  "redirected (Obj y_pushing) = Some (''/y'', 2, [2], 0,
     [OnAbort 1 Undefined, UserOnAbort 5 Undefined, GuardCall (Plain 1) 2 0,
      GuardCall (AsyncStep [ent 1]) 2 0, OnComplete 2, EnsureURL False])"
  "redirected (Str ''/y'') = Some (''/y'', 2, [2], 0,
     [OnAbort 1 Undefined, UserOnAbort 5 Undefined, GuardCall (Plain 1) 2 0,
      GuardCall (AsyncStep [ent 1]) 2 0, OnComplete 2, EnsureURL False])"
  by (simp_all add: redirected_def y_replacing_def y_pushing_def going_to_x_def to_x_def
      redirect_router_def scenario_simps)

theorem redirect_issues_one_navigation_witness:
  "rid (t_route to_x) < next_obj going_to_x
   \<and> lo_path y_replacing = Some ''/y'' \<and> lo_replace y_replacing
   \<and> lo_path y_pushing = Some ''/y'' \<and> \<not> lo_replace y_pushing
   \<and> guard_next 1 going_to_x to_x (QueueA [ent 1]) [] (Plain 1) (Obj y_replacing)
       = replace 0 (abort going_to_x to_x Undefined) (LocObject y_replacing) None None
   \<and> guard_next 1 going_to_x to_x (QueueA [ent 1]) [] (Plain 1) (Obj y_pushing)
       = push 0 (abort going_to_x to_x Undefined) (LocObject y_pushing) None None
   \<and> guard_next 1 going_to_x to_x (QueueA [ent 1]) [] (Plain 1) (Str ''/y'')
       = push 0 (abort going_to_x to_x Undefined) (LocString ''/y'') None None
   \<and> redirected (Obj y_replacing) = Some (''/y'', 2, [2], -1,
       [OnAbort 1 Undefined, UserOnAbort 5 Undefined, GuardCall (Plain 1) 2 0,
        GuardCall (AsyncStep [ent 1]) 2 0, OnComplete 2, EnsureURL False])
   \<and> redirected (Obj y_pushing) = Some (''/y'', 2, [2], 0,
       [OnAbort 1 Undefined, UserOnAbort 5 Undefined, GuardCall (Plain 1) 2 0,
        GuardCall (AsyncStep [ent 1]) 2 0, OnComplete 2, EnsureURL False])
   \<and> redirected (Str ''/y'') = Some (''/y'', 2, [2], 0,
       [OnAbort 1 Undefined, UserOnAbort 5 Undefined, GuardCall (Plain 1) 2 0,
        GuardCall (AsyncStep [ent 1]) 2 0, OnComplete 2, EnsureURL False])
   \<and> OnComplete 1 \<notin> set (trace (the (guard_next 1 going_to_x to_x (QueueA [ent 1]) []
          (Plain 1) (Obj y_replacing))))"
proof -
  have h: "rid (t_route to_x) < next_obj going_to_x"
    by (simp add: to_x_def going_to_x_def)
  have f: "(lo_path y_replacing \<noteq> None \<or> lo_name y_replacing \<noteq> None)" "lo_replace y_replacing"
    "(lo_path y_pushing \<noteq> None \<or> lo_name y_pushing \<noteq> None)" "\<not> lo_replace y_pushing"
    by (simp_all add: y_replacing_def y_pushing_def)
  note t1 = redirect_issues_one_navigation
    [OF h, of 0 "QueueA [ent 1]" "[]" "Plain 1" "''/y''" y_replacing]
  note t2 = redirect_issues_one_navigation
    [OF h, of 0 "QueueA [ent 1]" "[]" "Plain 1" "''/y''" y_pushing]
  note o1 = t1 [THEN conjunct2, THEN conjunct1, THEN mp, OF f(1)]
  note o2 = t2 [THEN conjunct2, THEN conjunct1, THEN mp, OF f(3)]
  note o3 = t1 [THEN conjunct1]
  have e1: "guard_next 1 going_to_x to_x (QueueA [ent 1]) [] (Plain 1) (Obj y_replacing)
       = replace 0 (abort going_to_x to_x Undefined) (LocObject y_replacing) None None"
    using o1 f(2) by (simp only: if_True One_nat_def)
  have e2: "guard_next 1 going_to_x to_x (QueueA [ent 1]) [] (Plain 1) (Obj y_pushing)
       = push 0 (abort going_to_x to_x Undefined) (LocObject y_pushing) None None"
    using o2 f(4) by (simp only: if_False One_nat_def)
  have e3: "guard_next 1 going_to_x to_x (QueueA [ent 1]) [] (Plain 1) (Str ''/y'')
       = push 0 (abort going_to_x to_x Undefined) (LocString ''/y'') None None"
    using o3 by (simp only: One_nat_def)
  obtain s where s: "guard_next 1 going_to_x to_x (QueueA [ent 1]) [] (Plain 1)
      (Obj y_replacing) = Some s"
    using redirected_eval(1) by (auto simp add: redirected_def)
  have "((\<exists>s'. Obj y_replacing = Str s') \<or>
         (\<exists>l'. Obj y_replacing = Obj l' \<and> (lo_path l' \<noteq> None \<or> lo_name l' \<noteq> None)))
        \<and> guard_next (Suc 0) going_to_x to_x (QueueA [ent 1]) [] (Plain 1) (Obj y_replacing)
            = Some s"
    using f(1) s by simp
  then have "OnComplete (rid (t_route to_x)) \<notin> set (drop (length (trace going_to_x)) (trace s))
      \<and> (current s = current going_to_x \<or> rid (current s) \<noteq> rid (t_route to_x))"
    by (rule t1 [THEN conjunct2, THEN conjunct2, THEN conjunct2, THEN conjunct2, THEN conjunct2,
        rule_format, of "Obj y_replacing" s])
  then have "OnComplete (rid (t_route to_x)) \<notin> set (drop (length (trace going_to_x)) (trace s))"
    by (rule conjunct1)
  then have "OnComplete 1 \<notin> set (trace s)"
    by (simp add: to_x_def going_to_x_def init_def)
  then have last: "OnComplete 1 \<notin> set (trace (the (guard_next 1 going_to_x to_x
      (QueueA [ent 1]) [] (Plain 1) (Obj y_replacing))))"
    using s by simp
  have p: "lo_path y_replacing = Some ''/y''" "lo_path y_pushing = Some ''/y''"
    by (simp_all add: y_replacing_def y_pushing_def)
  show ?thesis
    by (intro conjI h p f(2,4) e1 e2 e3 redirected_eval last)
qed

section \<open>Superseded transitions\<close>

lemma superseded_QueueB:
  assumes "\<not> pending_is st (t_route T)"
  shows "runQueue f st T (QueueB cbs) q = Some (abort st T Undefined)"
  using assms
proof (induction q)
  case Nil
  then show ?case by (simp add: runQueue.simps finish_def)
next
  case (Cons x q)
  then show ?case
    by (cases x) (simp_all add: runQueue.simps iterator.simps)
qed

lemma superseded_QueueA:
  assumes "\<not> pending_is st (t_route T)"
  shows "runQueue f st T (QueueA act) q = Some (abort st T Undefined) \<or>
         runQueue f st T (QueueA act) q =
           Some (abort (st\<lparr>next_obj := Suc (next_obj st),
                           postEnterCbs := (postEnterCbs st)(next_obj st := [])\<rparr>) T Undefined)"
  using assms
proof (induction q)
  case Nil
  let ?s = "st\<lparr>next_obj := Suc (next_obj st), postEnterCbs := (postEnterCbs st)(next_obj st := [])\<rparr>"
  let ?q = "extractEnterGuards (instances ?s) act (next_obj st)
      @ map (\<lambda>h. Some (Plain h)) (resolveHooks (router ?s))"
  have ns: "\<not> pending_is ?s (t_route T)"
    using Nil by (simp add: pending_is_def)
  have "runQueue f st T (QueueA act) [] = runQueue f ?s T (QueueB (next_obj st)) ?q"
    by (simp only: runQueue.simps Let_def)
  also have "\<dots> = Some (abort ?s T Undefined)"
    using ns by (rule superseded_QueueB)
  finally show ?case
    by (rule disjI2)
next
  case (Cons x q)
  then show ?case
    by (cases x) (simp_all add: runQueue.simps iterator.simps)
qed

lemma silently_aborted_abort:
  assumes "trace s = trace st" "current s = current st" "pending s = pending st"
    "ready s = ready st" "stack s = stack st" "index s = index st" "suspended s = suspended st"
  shows "silently_aborted T st (abort s T Undefined)"
proof -
  have "abort s T Undefined = log s (onAbort_calls T Undefined)"
    by (rule abort_silent) simp_all
  then show ?thesis
    using assms by (simp add: silently_aborted_def log_def)
qed

lemma superseded_runQueue:
  assumes "\<not> pending_is st (t_route T)"
  shows "\<exists>st'. runQueue f st T ph q = Some st' \<and> silently_aborted T st st'"
proof (cases ph)
  case (QueueB cbs)
  have "silently_aborted T st (abort st T Undefined)"
    by (rule silently_aborted_abort) simp_all
  then show ?thesis
    using superseded_QueueB [OF assms] QueueB by simp
next
  case (QueueA act)
  have "silently_aborted T st (abort st T Undefined)"
    by (rule silently_aborted_abort) simp_all
  moreover have "silently_aborted T st
      (abort (st\<lparr>next_obj := Suc (next_obj st),
                 postEnterCbs := (postEnterCbs st)(next_obj st := [])\<rparr>) T Undefined)"
    by (rule silently_aborted_abort) simp_all
  ultimately show ?thesis
    using superseded_QueueA [OF assms, of f act q] QueueA by auto
qed

lemma superseded_pass:
  assumes "\<not> pending_is st (t_route T)" "v \<noteq> Bool False" "\<not> isError v"
    "redirect_target v = None"
  shows "\<exists>st'. guard_next f st T ph q g v = Some st' \<and> silently_aborted T st st'"
proof -
  obtain s where s: "runQueue f st T ph q = Some s" "silently_aborted T st s"
    using superseded_runQueue [OF assms(1)] by blast
  have r: "resultHandler f st T ph q v = Some s"
    using assms s(1) by (simp add: resultHandler.simps)
  show ?thesis
  proof (cases g)
    case (EnterGuard h m k cbs)
    show ?thesis
    proof (cases v)
      case (Fun c)
      have "silently_aborted T st (push_post_cb s cbs
          \<lparr>pc_cb = c, pc_entry = eid m, pc_key = k, pc_route = rid (t_route T)\<rparr>)"
        using s(2) by (simp add: silently_aborted_def push_post_cb_def)
      then show ?thesis
        using r EnterGuard Fun by (simp add: guard_next.simps)
    qed (use r s(2) EnterGuard in \<open>simp_all add: guard_next.simps\<close>)
  qed (use r s(2) in \<open>simp_all add: guard_next.simps\<close>)
qed

lemma overtaken_eval:
  "suspended overtaken = [waiting_a]" "pending overtaken = None" "rid (current overtaken) = 2"
  "next_obj overtaken = 4" "errorCbs overtaken = [7]" "ready overtaken"
  "trace overtaken = [GuardCall (Plain 1) 1 0, GuardCall (Plain 1) 2 0,
     GuardCall (AsyncStep [ent 1]) 2 0, OnComplete 2, EnsureURL False]"
  by (simp_all add: overtaken_def waiting_a_def async_router_def scenario_simps)

lemma stacked_refl: "stacked s s"
  by (simp add: stacked_def)

lemma stacked_trans:
  assumes "stacked a b" "stacked b c"
  shows "stacked a c"
proof -
  from assms(1) obtain e1 where 1: "trace b = trace a @ e1"
    "\<forall>x \<in> set (stack b). x \<in> set (stack a) \<or> OnComplete (rid x) \<in> set e1"
    unfolding stacked_def by blast
  from assms(2) obtain e2 where 2: "trace c = trace b @ e2"
    "\<forall>x \<in> set (stack c). x \<in> set (stack b) \<or> OnComplete (rid x) \<in> set e2"
    unfolding stacked_def by blast
  have "trace c = trace a @ (e1 @ e2)"
    by (simp add: 1 2)
  moreover have "\<forall>x \<in> set (stack c). x \<in> set (stack a) \<or> OnComplete (rid x) \<in> set (e1 @ e2)"
    using 1(2) 2(2) by auto
  ultimately show ?thesis
    unfolding stacked_def by blast
qed

lemma quiet_stacked: "quiet s s' \<Longrightarrow> stacked s s'"
  by (erule quietE) (simp add: stacked_def)

lemma call_tt_complete_stack:
  "set (stack (call_tt_complete st c r)) \<subseteq> insert r (set (stack st))"
  by (cases c)
    (auto simp add: Let_def log_def js_slice0_def dest: in_set_takeD split: option.splits)

lemma call_onComplete_stack:
  "set (stack (call_onComplete st oc r)) \<subseteq> insert r (set (stack st))"
proof (cases oc)
  case (GoComplete i)
  then show ?thesis by (simp add: updateRoute_fields subset_insertI)
next
  case (TransitionToComplete c)
  have "set (stack (case c of Some c' \<Rightarrow> call_tt_complete (updateRoute st r) c' r
                           | None \<Rightarrow> updateRoute st r)) \<subseteq> insert r (set (stack st))"
    using call_tt_complete_stack [of "updateRoute st r" _ r]
    by (cases c) (simp_all add: updateRoute_fields subset_insertI)
  then show ?thesis
    using TransitionToComplete by (simp add: Let_def ensureURL_def log_def)
qed

lemma finish_stacked: "stacked st (finish st T cbs)"
proof (cases "pending_is st (t_route T)")
  case False
  then have "finish st T cbs = abort st T Undefined"
    by (simp add: finish_def)
  then show ?thesis
    by (simp add: quiet_stacked quiet_abort)
next
  case True
  define st1 where "st1 = log (st\<lparr>pending := None\<rparr>) [OnComplete (rid (t_route T))]"
  define st2 where "st2 = call_onComplete st1 (t_onComplete T) (t_route T)"
  define st3 where "st3 = (if app (router st2) then st2\<lparr>nextTick := nextTick st2 @ [cbs]\<rparr> else st2)"
  have res: "finish st T cbs = st3"
    using True unfolding finish_def st3_def st2_def st1_def Let_def by simp
  have f1: "stack st1 = stack st" "trace st1 = trace st @ [OnComplete (rid (t_route T))]"
    by (simp_all add: st1_def log_def)
  have "commits (t_route T) False st1 st2"
    unfolding st2_def by (rule call_onComplete_commits) simp
  then obtain e2 where 2: "trace st2 = trace st1 @ e2"
    unfolding commits_def by blast
  have s2: "set (stack st2) \<subseteq> insert (t_route T) (set (stack st))"
    unfolding st2_def using call_onComplete_stack [of st1] by (simp add: f1)
  have f3: "stack st3 = stack st2" "trace st3 = trace st2"
    by (simp_all add: st3_def)
  have "trace st3 = trace st @ (OnComplete (rid (t_route T)) # e2)"
    by (simp add: f3 2 f1)
  moreover have "\<forall>x \<in> set (stack st3). x \<in> set (stack st)
      \<or> OnComplete (rid x) \<in> set (OnComplete (rid (t_route T)) # e2)"
    using s2 by (auto simp add: f3)
  ultimately have "stacked st st3"
    unfolding stacked_def by blast
  then show ?thesis by (simp only: res)
qed

lemma respected_stacked: "respected stacked"
  unfolding respected_def
proof (intro conjI allI impI)
  fix a b c assume "stacked a b" "stacked b c"
  then show "stacked a c" by (rule stacked_trans)
qed (simp_all add: stacked_refl finish_stacked quiet_stacked quiet_abort quiet_ensureURL
    quiet_log quiet_suspend quiet_push_post_cb, simp_all add: stacked_def)

lemma exec_act_stacked:
  assumes "exec_act f st x = Some st'"
  shows "stacked st st'"
proof (cases x)
  case (Continue k v)
  with assms show ?thesis
    using machine_rel_all(3) [OF respected_stacked] by (simp add: resume_def)
next
  case (Navigate y)
  show ?thesis
  proof (cases y)
    case (Push loc oc oa)
    with assms Navigate show ?thesis
      using machine_rel_all(5) [OF respected_stacked] by simp
  next
    case (Replace loc oc oa)
    with assms Navigate show ?thesis
      using machine_rel_all(6) [OF respected_stacked] by simp
  next
    case (Go n)
    show ?thesis
    proof (cases "index st + n < 0 \<or> index st + n \<ge> int (length (stack st))")
      case True
      with assms Navigate Go have "st' = st" by (simp add: go_def Let_def)
      then show ?thesis by (simp add: stacked_refl)
    next
      case False
      with assms Navigate Go
      have "confirmTransition f st (stack st ! nat (index st + n))
          (GoComplete (index st + n)) None = Some st'"
        by (simp add: go_def Let_def)
      then show ?thesis
        using machine_rel_all(8) [OF respected_stacked] by blast
    qed
  qed
qed

text \<open>
  A step completes only the transition that holds the pending slot, one to a route of
  the stack, or one that it starts.
\<close>

lemma exec_act_evolve:
  assumes "exec_act f st x = Some st'"
  shows "\<exists>A g. evolve A g st st' \<and>
           (\<forall>r \<in> A. r \<in> rid ` set (stack st) \<or> map_option rid (pending st) = Some r)"
proof (cases x)
  case (Continue k v)
  with assms have "evolve (own (k_transition k) st) (go_ok (k_transition k) st) st st'"
    using machine_evolve_all(3) by (simp add: resume_def)
  moreover have "\<forall>r \<in> own (k_transition k) st.
      r \<in> rid ` set (stack st) \<or> map_option rid (pending st) = Some r"
    by (simp add: own_def pending_is_def)
  ultimately show ?thesis by blast
next
  case (Navigate y)
  show ?thesis
  proof (cases y)
    case (Push loc oc oa)
    with assms Navigate have "evolve {} True st st'"
      using machine_evolve_all(5) by simp
    then show ?thesis by blast
  next
    case (Replace loc oc oa)
    with assms Navigate have "evolve {} True st st'"
      using machine_evolve_all(6) by simp
    then show ?thesis by blast
  next
    case (Go n)
    show ?thesis
    proof (cases "index st + n < 0 \<or> index st + n \<ge> int (length (stack st))")
      case True
      with assms Navigate Go have "st' = st" by (simp add: go_def Let_def)
      then have "evolve {} True st st'"
        by (simp add: quiet_imp_evolve quiet_refl)
      then show ?thesis by blast
    next
      case False
      define r where "r = stack st ! nat (index st + n)"
      have m: "r \<in> set (stack st)"
        unfolding r_def using False by (intro nth_mem) linarith
      from assms Navigate Go False
      have "confirmTransition f st r (GoComplete (index st + n)) None = Some st'"
        by (simp add: go_def Let_def r_def)
      then have "evolve {rid r} (go_ok \<lparr>t_route = r, t_current = current st,
          t_onComplete = GoComplete (index st + n), t_onAbort = None\<rparr> st) st st'"
        using machine_evolve_all(8) by blast
      moreover have "\<forall>x \<in> {rid r}. x \<in> rid ` set (stack st)
          \<or> map_option rid (pending st) = Some x"
        using m by simp
      ultimately show ?thesis by blast
    qed
  qed
qed

text \<open>
  A route object that is neither in the pending slot nor in the stack stays out of
  both, and no transition to it completes.
\<close>

lemma exec_act_superseded:
  assumes "exec_act f st x = Some st'"
    and "map_option rid (pending st) \<noteq> Some r" "r \<notin> rid ` set (stack st)" "r < next_obj st"
  shows "map_option rid (pending st') \<noteq> Some r \<and> r \<notin> rid ` set (stack st')
     \<and> r < next_obj st'
     \<and> (\<exists>evs. trace st' = trace st @ evs \<and> OnComplete r \<notin> set evs)
     \<and> (current st' = current st \<or> rid (current st') \<noteq> r)"
proof -
  from exec_act_evolve [OF assms(1)] obtain A g where e: "evolve A g st st'"
    and A: "\<forall>r \<in> A. r \<in> rid ` set (stack st) \<or> map_option rid (pending st) = Some r"
    by blast
  have nA: "r \<notin> A"
    using A assms(2,3) by blast
  from e obtain evs where 1: "next_obj st \<le> next_obj st'" "trace st' = trace st @ evs"
    "\<And>x. OnComplete x \<in> set evs \<Longrightarrow> x \<in> A \<or> next_obj st \<le> x"
    "current st' = current st \<or> OnComplete (rid (current st')) \<in> set evs"
    "pending st' = pending st \<or> pending st' = None \<or>
       (\<exists>p. pending st' = Some p \<and> (rid p \<in> A \<or> next_obj st \<le> rid p))"
    unfolding evolve_def by blast
  from exec_act_stacked [OF assms(1)] obtain evs' where 2: "trace st' = trace st @ evs'"
    "\<forall>x \<in> set (stack st'). x \<in> set (stack st) \<or> OnComplete (rid x) \<in> set evs'"
    unfolding stacked_def by blast
  have same: "evs' = evs"
    using 1(2) 2(1) by simp
  have n: "OnComplete r \<notin> set evs"
    using 1(3) [of r] nA assms(4) by auto
  have p: "map_option rid (pending st') \<noteq> Some r"
    using 1(5) assms(2,4) nA by auto
  have s: "r \<notin> rid ` set (stack st')"
    using 2(2) n assms(3) same by auto
  have c: "current st' = current st \<or> rid (current st') \<noteq> r"
    using 1(4) n by auto
  have l: "r < next_obj st'"
    using 1(1) assms(4) by simp
  from p s l 1(2) n c show ?thesis
    by blast
qed

lemma exec_acts_superseded:
  assumes "exec_acts f st xs = Some st'"
    and "map_option rid (pending st) \<noteq> Some r" "r \<notin> rid ` set (stack st)" "r < next_obj st"
  shows "map_option rid (pending st') \<noteq> Some r \<and> r \<notin> rid ` set (stack st')
     \<and> (\<exists>evs. trace st' = trace st @ evs \<and> OnComplete r \<notin> set evs)
     \<and> (current st' = current st \<or> rid (current st') \<noteq> r)"
  using assms
proof (induction xs arbitrary: st)
  case Nil
  then show ?case by simp
next
  case (Cons x xs)
  from Cons.prems(1) obtain st1 where 1: "exec_act f st x = Some st1"
    "exec_acts f st1 xs = Some st'"
    by (auto split: option.splits)
  from exec_act_superseded [OF 1(1) Cons.prems(2,3,4)] obtain e1 where
    a: "map_option rid (pending st1) \<noteq> Some r" "r \<notin> rid ` set (stack st1)"
      "r < next_obj st1" "trace st1 = trace st @ e1" "OnComplete r \<notin> set e1"
      "current st1 = current st \<or> rid (current st1) \<noteq> r"
    by blast
  from Cons.IH [OF 1(2) a(1,2,3)] obtain e2 where
    b: "map_option rid (pending st') \<noteq> Some r" "r \<notin> rid ` set (stack st')"
      "trace st' = trace st1 @ e2" "OnComplete r \<notin> set e2"
      "current st' = current st1 \<or> rid (current st') \<noteq> r"
    by blast
  have "trace st' = trace st @ (e1 @ e2)" "OnComplete r \<notin> set (e1 @ e2)"
    using a(4,5) b(3,4) by simp_all
  then have "\<exists>evs. trace st' = trace st @ evs \<and> OnComplete r \<notin> set evs"
    by blast
  moreover have "current st' = current st \<or> rid (current st') \<noteq> r"
    using a(6) b(5) by auto
  ultimately show ?case
    using b(1,2) by blast
qed

lemma exec_acts_stacked:
  assumes "exec_acts f st xs = Some st'"
  shows "stacked st st'"
  using assms
proof (induction xs arbitrary: st)
  case Nil
  then show ?case by (simp add: stacked_refl)
next
  case (Cons x xs)
  from Cons.prems obtain st1 where 1: "exec_act f st x = Some st1"
    "exec_acts f st1 xs = Some st'"
    by (auto split: option.splits)
  from exec_act_stacked [OF 1(1)] Cons.IH [OF 1(2)] show ?case
    by (rule stacked_trans)
qed

lemma went_back_eval:
  "suspended went_back = [going_back]" "map_option rid (pending went_back) = Some 1"
  "rid (current went_back) = 3" "map rid (stack went_back) = [1, 3]" "index went_back = 1"
  by (simp_all add: went_back_def going_back_def back_router_def scenario_simps)

lemma moved_on_eval:
  "pending moved_on = None" "rid (current moved_on) = 5" "map rid (stack moved_on) = [1, 3, 5]"
  "index moved_on = 2"
  "drop (length (trace went_back)) (trace moved_on)
     = [GuardCall (Plain 1) 5 3, GuardCall (AsyncStep []) 5 3, OnComplete 5, EnsureURL False]"
  by (simp_all add: moved_on_def went_back_def back_router_def scenario_simps)

lemma back_again_eval:
  "map_option rid (pending back_again) = Some 1" "rid (current back_again) = 5"
  "drop (length (trace moved_on)) (trace back_again) = [GuardCall (Plain 1) 1 5]"
  "map_option (\<lambda>s. (rid (current s), index s, pending s,
        drop (length (trace back_again)) (trace s)))
     (resume 0 back_again going_back Undefined)
   = Some (1, 0, None, [GuardCall (AsyncStep []) 1 3, OnComplete 1])"
  by (simp_all add: back_again_def moved_on_def went_back_def going_back_def back_router_def
      scenario_simps)

text \<open>
  C1, as stated, fails, in two ways.
  \<^item> The guard of the overtaken navigation to \<open>/a\<close> calls its continuation with an error:
    the abort path of that navigation runs with the error value and the global error
    callback is called with it. The abort is not silent.
  \<^item> \<open>go\<close> starts a transition to a route object of the stack, and the pending slot is
    compared by identity. The transition of \<open>go(-1)\<close> waits in its guard and a
    navigation to \<open>/c\<close> overwrites the slot and completes; \<open>go(-2)\<close> then puts the same
    route object into the slot again, and when the guard of \<open>go(-1)\<close> calls its
    continuation, its completion callback is called: the cursor becomes 0 and the route
    becomes \<open>current\<close>.
\<close>

theorem superseded_transition_reports_or_completes:
  "suspended overtaken = [waiting_a]
   \<and> \<not> pending_is overtaken (t_route (k_transition waiting_a))
   \<and> map_option (\<lambda>s. drop (length (trace overtaken)) (trace s))
       (resume 0 overtaken waiting_a (Error 3))
     = Some [EnsureURL True, ErrorCb 7 (Error 3), OnAbort 1 (Error 3),
             UserOnAbort 5 (Error 3)]
   \<and> suspended went_back = [going_back]
   \<and> pending_is went_back (t_route (k_transition going_back))
   \<and> push 0 went_back (LocString ''/c'') None None = Some moved_on
   \<and> \<not> pending_is moved_on (t_route (k_transition going_back))
   \<and> rid (current moved_on) = 5
   \<and> go 0 moved_on (- 2) = Some back_again
   \<and> pending_is back_again (t_route (k_transition going_back))
   \<and> map_option (\<lambda>s. (rid (current s), index s, pending s,
          drop (length (trace back_again)) (trace s)))
       (resume 0 back_again going_back Undefined)
     = Some (1, 0, None, [GuardCall (AsyncStep []) 1 3, OnComplete 1])"
proof -
  have "resume 0 overtaken waiting_a (Error 3)
      = Some (abort (ensureURL overtaken True) (k_transition waiting_a) (Error 3))"
    unfolding resume_def by (rule guard_next_veto) simp
  moreover have "trace (abort (ensureURL overtaken True) (k_transition waiting_a) (Error 3))
      = trace overtaken @ [EnsureURL True, ErrorCb 7 (Error 3), OnAbort 1 (Error 3),
             UserOnAbort 5 (Error 3)]"
    by (simp add: abort_error_trace ensureURL_fields overtaken_eval onAbort_calls_def
        waiting_a_def)
  ultimately have 1: "map_option (\<lambda>s. drop (length (trace overtaken)) (trace s))
       (resume 0 overtaken waiting_a (Error 3))
     = Some [EnsureURL True, ErrorCb 7 (Error 3), OnAbort 1 (Error 3),
             UserOnAbort 5 (Error 3)]"
    by simp
  have 2: "\<not> pending_is overtaken (t_route (k_transition waiting_a))"
    by (simp add: overtaken_eval pending_is_def)
  have 3: "pending_is went_back (t_route (k_transition going_back))"
    "\<not> pending_is moved_on (t_route (k_transition going_back))"
    "pending_is back_again (t_route (k_transition going_back))"
    by (simp_all add: pending_is_def went_back_eval moved_on_eval back_again_eval
        going_back_def)
  have 4: "push 0 went_back (LocString ''/c'') None None = Some moved_on"
    by (simp add: moved_on_def went_back_def back_router_def scenario_simps)
  have 5: "go 0 moved_on (- 2) = Some back_again"
    by (simp add: back_again_def moved_on_def went_back_def back_router_def scenario_simps)
  show ?thesis
    by (intro conjI overtaken_eval(1) 1 2 3 4 5 went_back_eval(1) moved_on_eval(2)
        back_again_eval(4))
qed

text \<open>
  C1 (as amended). Let \<open>T\<close> be a transition that waits in a guard while the pending slot
  holds another route, or none.
  \<^item> When the guard at which \<open>T\<close> waits calls its continuation, with whatever value (a
    redirect included), the completion callback of \<open>T\<close> is not called and the route of
    \<open>T\<close> does not become \<open>current\<close>.
  \<^item> If moreover the route object of \<open>T\<close> is not stored in the stack (as for a
    transition started by \<open>transitionTo\<close>, \<open>push\<close> or \<open>replace\<close>: see the last item),
    then whatever follows (navigations by \<open>push\<close>, \<open>replace\<close> and \<open>go\<close>, and guards of
    \<open>T\<close> or of other transitions calling their continuations, in any order), the
    completion callback of \<open>T\<close> is never called, the slot never holds the route of \<open>T\<close>
    again, and that route enters neither the stack nor \<open>current\<close>.
  \<^item> When the guard calls the continuation with a value that lets the transition pass
    (\<open>undefined\<close>, \<open>true\<close>, a function, an object with neither a \<open>path\<close> nor a \<open>name\<close>),
    \<open>T\<close> aborts silently: only its abort callbacks are called, with no error value;
    \<open>current\<close>, the slot, the ready flag, the stack and the cursor are unchanged.
  \<^item> When it calls it with \<open>false\<close> or an error, the veto is handled as for any
    transition: \<open>ensureURL(true)\<close>, then \<open>abort\<close> with that value.
  \<^item> The pending slot holds at most one route, and \<open>transitionTo\<close> leaves in it what was
    there, nothing, or a route created during that run.
  \<^item> From a history with an empty stack, every route of the stack is one whose
    completion callback was called.
  A transition started by \<open>go\<close> targets a route object of the stack, and a later \<open>go\<close> to
  the same object puts it into the slot again: for such a transition only the first
  item holds, at each call of the continuation.
\<close>

theorem superseded_transition_never_completes:
  assumes "\<not> pending_is st (t_route (k_transition k))"
    and "rid (t_route (k_transition k)) < next_obj st"
  shows "(\<forall>w st'. resume f st k w = Some st' \<longrightarrow>
            OnComplete (rid (t_route (k_transition k)))
              \<notin> set (drop (length (trace st)) (trace st'))
            \<and> (current st' = current st \<or> rid (current st') \<noteq> rid (t_route (k_transition k))))
     \<and> (rid (t_route (k_transition k)) \<notin> rid ` set (stack st) \<longrightarrow>
          (\<forall>xs st'. exec_acts f st xs = Some st' \<longrightarrow>
             OnComplete (rid (t_route (k_transition k)))
               \<notin> set (drop (length (trace st)) (trace st'))
             \<and> \<not> pending_is st' (t_route (k_transition k))
             \<and> rid (t_route (k_transition k)) \<notin> rid ` set (stack st')
             \<and> (current st' = current st
                  \<or> rid (current st') \<noteq> rid (t_route (k_transition k)))))
     \<and> (v = Undefined \<or> v = Bool True \<or> (\<exists>c. v = Fun c)
          \<or> (\<exists>l. v = Obj l \<and> lo_path l = None \<and> lo_name l = None) \<longrightarrow>
          (\<exists>st'. resume f st k v = Some st'
             \<and> trace st' = trace st @ onAbort_calls (k_transition k) Undefined
             \<and> current st' = current st \<and> pending st' = pending st \<and> ready st' = ready st
             \<and> stack st' = stack st \<and> index st' = index st))
     \<and> (v = Bool False \<or> (\<exists>e. v = Error e) \<longrightarrow>
          resume f st k v = Some (abort (ensureURL st True) (k_transition k) v))
     \<and> (\<forall>s loc onComplete onAbort s'.
          transitionTo f s loc onComplete onAbort = Some s'
          \<and> rid (t_route (k_transition k)) < next_obj s \<and> pending s' \<noteq> pending s \<longrightarrow>
          \<not> pending_is s' (t_route (k_transition k)))
     \<and> (\<forall>s0 xs s. stack s0 = [] \<and> exec_acts f s0 xs = Some s \<longrightarrow>
          (\<forall>x \<in> set (stack s). OnComplete (rid x) \<in> set (trace s)))"
proof (intro conjI allI impI ballI)
  fix w st' assume r: "resume f st k w = Some st'"
  then have "evolve (own (k_transition k) st) (go_ok (k_transition k) st) st st'"
    using machine_evolve_all(3) unfolding resume_def by blast
  then have e: "evolve {} (go_ok (k_transition k) st) st st'"
    using assms(1) by (simp add: own_def)
  show "OnComplete (rid (t_route (k_transition k)))
              \<notin> set (drop (length (trace st)) (trace st'))"
    using evolve_old_route(1) [OF e _ assms(2)] by simp
  show "current st' = current st \<or> rid (current st') \<noteq> rid (t_route (k_transition k))"
    using evolve_old_route(2) [OF e _ assms(2)] by simp
next
  fix xs st'
  assume ns: "rid (t_route (k_transition k)) \<notin> rid ` set (stack st)"
    and r: "exec_acts f st xs = Some st'"
  have p: "map_option rid (pending st) \<noteq> Some (rid (t_route (k_transition k)))"
    using assms(1) by (simp add: pending_is_def)
  from exec_acts_superseded [OF r p ns assms(2)] obtain evs where
    a: "map_option rid (pending st') \<noteq> Some (rid (t_route (k_transition k)))"
      "rid (t_route (k_transition k)) \<notin> rid ` set (stack st')"
      "trace st' = trace st @ evs" "OnComplete (rid (t_route (k_transition k))) \<notin> set evs"
      "current st' = current st \<or> rid (current st') \<noteq> rid (t_route (k_transition k))"
    by blast
  show "OnComplete (rid (t_route (k_transition k)))
              \<notin> set (drop (length (trace st)) (trace st'))"
    using a(3,4) by simp
  show "\<not> pending_is st' (t_route (k_transition k))"
    using a(1) by (simp add: pending_is_def)
  show "rid (t_route (k_transition k)) \<notin> rid ` set (stack st')"
    by (rule a(2))
  show "current st' = current st \<or> rid (current st') \<noteq> rid (t_route (k_transition k))"
    by (rule a(5))
next
  assume "v = Undefined \<or> v = Bool True \<or> (\<exists>c. v = Fun c)
          \<or> (\<exists>l. v = Obj l \<and> lo_path l = None \<and> lo_name l = None)"
  then have "v \<noteq> Bool False" "\<not> isError v" "redirect_target v = None"
    by auto
  then obtain st' where "guard_next f st (k_transition k) (k_phase k) (k_rest k) (k_guard k) v
      = Some st'" "silently_aborted (k_transition k) st st'"
    using superseded_pass [OF assms(1), of v f "k_phase k" "k_rest k" "k_guard k"] by blast
  then show "\<exists>st'. resume f st k v = Some st'
             \<and> trace st' = trace st @ onAbort_calls (k_transition k) Undefined
             \<and> current st' = current st \<and> pending st' = pending st \<and> ready st' = ready st
             \<and> stack st' = stack st \<and> index st' = index st"
    unfolding resume_def silently_aborted_def by blast
next
  assume "v = Bool False \<or> (\<exists>e. v = Error e)"
  then have "v = Bool False \<or> isError v"
    by auto
  then show "resume f st k v = Some (abort (ensureURL st True) (k_transition k) v)"
    unfolding resume_def by (rule guard_next_veto)
next
  fix s loc onComplete onAbort s'
  assume a: "transitionTo f s loc onComplete onAbort = Some s'
          \<and> rid (t_route (k_transition k)) < next_obj s \<and> pending s' \<noteq> pending s"
  then have "evolve {} True s s'"
    using machine_evolve_all(7) by blast
  then have "pending s' = pending s \<or>
      map_option rid (pending s') \<noteq> Some (rid (t_route (k_transition k)))"
    using evolve_old_route(3) [of "{}" True s s' "rid (t_route (k_transition k))"] a by simp
  with a show "\<not> pending_is s' (t_route (k_transition k))"
    by (simp add: pending_is_def)
next
  fix s0 xs s x
  assume a: "stack s0 = [] \<and> exec_acts f s0 xs = Some s" and x: "x \<in> set (stack s)"
  then have "stacked s0 s"
    using exec_acts_stacked by blast
  then obtain evs where "trace s = trace s0 @ evs"
    "\<forall>x \<in> set (stack s). x \<in> set (stack s0) \<or> OnComplete (rid x) \<in> set evs"
    unfolding stacked_def by blast
  with a x show "OnComplete (rid x) \<in> set (trace s)"
    by auto
qed

lemma afterwards_eval:
  "map_option (\<lambda>s. (rid (current s), index s, pending s, map rid (stack s),
        drop (length (trace overtaken)) (trace s)))
     (exec_acts 0 overtaken afterwards)
   = Some (4, 1, None, [2, 4],
       [OnAbort 1 Undefined, UserOnAbort 5 Undefined, EnsureURL False,
        GuardCall (Plain 1) 4 2, GuardCall (AsyncStep []) 4 2, OnComplete 4,
        EnsureURL False, OnAbort 1 Undefined, UserOnAbort 5 Undefined])"
  "map rid (stack overtaken) = [2]"
  by (simp_all add: afterwards_def overtaken_def waiting_a_def async_router_def scenario_simps)

theorem superseded_transition_never_completes_witness:
  "\<not> pending_is overtaken (t_route (k_transition waiting_a))
   \<and> rid (t_route (k_transition waiting_a)) \<notin> rid ` set (stack overtaken)
   \<and> rid (t_route (k_transition waiting_a)) < next_obj overtaken
   \<and> (\<exists>st'. resume 0 overtaken waiting_a Undefined = Some st'
        \<and> trace st' = trace overtaken @ [OnAbort 1 Undefined, UserOnAbort 5 Undefined]
        \<and> rid (current st') = 2)
   \<and> (\<exists>st'. exec_acts 0 overtaken afterwards = Some st'
        \<and> drop (length (trace overtaken)) (trace st')
            = [OnAbort 1 Undefined, UserOnAbort 5 Undefined, EnsureURL False,
               GuardCall (Plain 1) 4 2, GuardCall (AsyncStep []) 4 2, OnComplete 4,
               EnsureURL False, OnAbort 1 Undefined, UserOnAbort 5 Undefined]
        \<and> OnComplete 1 \<notin> set (drop (length (trace overtaken)) (trace st'))
        \<and> \<not> pending_is st' (t_route (k_transition waiting_a))
        \<and> map rid (stack st') = [2, 4] \<and> rid (current st') = 4)"
proof -
  have h1: "\<not> pending_is overtaken (t_route (k_transition waiting_a))"
    by (simp add: pending_is_def overtaken_eval)
  have "rid ` set (stack overtaken) = set (map rid (stack overtaken))"
    by simp
  then have h2: "rid (t_route (k_transition waiting_a)) \<notin> rid ` set (stack overtaken)"
    by (simp only: afterwards_eval(2)) (simp add: waiting_a_def)
  have h3: "rid (t_route (k_transition waiting_a)) < next_obj overtaken"
    by (simp add: overtaken_eval waiting_a_def)
  note t = superseded_transition_never_completes [OF h1 h3, of 0 Undefined]
  from t obtain st' where s: "resume 0 overtaken waiting_a Undefined = Some st'"
    "trace st' = trace overtaken @ onAbort_calls (k_transition waiting_a) Undefined"
    "current st' = current overtaken"
    by auto
  have a: "\<exists>st'. resume 0 overtaken waiting_a Undefined = Some st'
        \<and> trace st' = trace overtaken @ [OnAbort 1 Undefined, UserOnAbort 5 Undefined]
        \<and> rid (current st') = 2"
    using s by (simp add: waiting_a_def onAbort_calls_def overtaken_eval)
  obtain s' where s': "exec_acts 0 overtaken afterwards = Some s'"
    "drop (length (trace overtaken)) (trace s')
            = [OnAbort 1 Undefined, UserOnAbort 5 Undefined, EnsureURL False,
               GuardCall (Plain 1) 4 2, GuardCall (AsyncStep []) 4 2, OnComplete 4,
               EnsureURL False, OnAbort 1 Undefined, UserOnAbort 5 Undefined]"
    "map rid (stack s') = [2, 4]" "rid (current s') = 4"
    using afterwards_eval(1) by auto
  from t h2 s'(1) have "OnComplete (rid (t_route (k_transition waiting_a)))
              \<notin> set (drop (length (trace overtaken)) (trace s'))
      \<and> \<not> pending_is s' (t_route (k_transition waiting_a))"
    by blast
  then have b: "OnComplete 1 \<notin> set (drop (length (trace overtaken)) (trace s'))"
    "\<not> pending_is s' (t_route (k_transition waiting_a))"
    by (simp_all add: waiting_a_def)
  have c: "\<exists>st'. exec_acts 0 overtaken afterwards = Some st'
        \<and> drop (length (trace overtaken)) (trace st')
            = [OnAbort 1 Undefined, UserOnAbort 5 Undefined, EnsureURL False,
               GuardCall (Plain 1) 4 2, GuardCall (AsyncStep []) 4 2, OnComplete 4,
               EnsureURL False, OnAbort 1 Undefined, UserOnAbort 5 Undefined]
        \<and> OnComplete 1 \<notin> set (drop (length (trace overtaken)) (trace st'))
        \<and> \<not> pending_is st' (t_route (k_transition waiting_a))
        \<and> map rid (stack st') = [2, 4] \<and> rid (current st') = 4"
    by (intro exI [of _ s'] conjI s' b)
  show ?thesis
    by (intro conjI h1 h2 h3 a c)
qed

lemma at_b_eval:
  "rid (current at_b) = 3" "index at_b = 1" "map rid (stack at_b) = [1, 3]"
  "length (trace at_b) = 6"
  by (simp_all add: at_b_def scenario_simps)

lemma held_eval:
  "rid (current held) = 0" "suspended held = [waiting_a]"
  "map_option rid (pending held) = Some 1" "trace held = [GuardCall (Plain 1) 1 0]"
  by (simp_all add: held_def waiting_a_def async_router_def scenario_simps)

theorem current_changes_on_commit_only_witness:
  "map_option (\<lambda>s. (rid (current s), trace s))
     (transitionTo 0 (listen (init (plain_router\<lparr>afterHooks := [Some 3, None, Some 4]\<rparr>)) 8)
        (LocString ''/a'') None None)
   = Some (1, [GuardCall (AsyncStep [ent 1]) 1 0, OnComplete 1, Listener 8 1,
               AfterHook 3 1 0, AfterHook 4 1 0, EnsureURL False])
   \<and> map_option (\<lambda>s. (rid (current s), index s, drop (length (trace at_b)) (trace s)))
       (go 0 at_b (- 1))
     = Some (1, 0, [GuardCall (AsyncStep []) 1 3, OnComplete 1])
   \<and> map_option (\<lambda>s. (rid (current s), drop (length (trace held)) (trace s)))
       (resume 0 held waiting_a Undefined)
     = Some (1, [GuardCall (AsyncStep [ent 1]) 1 0, OnComplete 1, UserOnComplete 4 1,
                 EnsureURL False])
   \<and> current (abort held (k_transition waiting_a) (Error 3)) = START"
proof -
  let ?s0 = "listen (init (plain_router\<lparr>afterHooks := [Some 3, None, Some 4]\<rparr>)) 8"
  have 1: "map_option (\<lambda>s. (rid (current s), trace s))
     (transitionTo 0 ?s0 (LocString ''/a'') None None)
   = Some (1, [GuardCall (AsyncStep [ent 1]) 1 0, OnComplete 1, Listener 8 1,
               AfterHook 3 1 0, AfterHook 4 1 0, EnsureURL False])"
    by (simp add: scenario_simps)
  have 2: "map_option (\<lambda>s. (rid (current s), index s, drop (length (trace at_b)) (trace s)))
       (go 0 at_b (- 1))
     = Some (1, 0, [GuardCall (AsyncStep []) 1 3, OnComplete 1])"
    by (simp add: at_b_def scenario_simps)
  have 3: "map_option (\<lambda>s. (rid (current s), drop (length (trace held)) (trace s)))
       (resume 0 held waiting_a Undefined)
     = Some (1, [GuardCall (AsyncStep [ent 1]) 1 0, OnComplete 1, UserOnComplete 4 1,
                 EnsureURL False])"
    by (simp add: held_def waiting_a_def async_router_def scenario_simps)
  note t = current_changes_on_commit_only [of held "k_transition waiting_a" "Error 3"
      "TransitionToAbort None" "demo_route ''/a''" 0 "LocString ''/a''" None None 0
      waiting_a Undefined]
  from t have 4: "current (abort held (k_transition waiting_a) (Error 3)) = current held"
    by blast
  obtain s where s: "resume 0 held waiting_a Undefined = Some s"
    using 3 by auto
  with t have "current s = current held \<or>
      OnComplete (rid (current s)) \<in> set (drop (length (trace held)) (trace s))"
    by blast
  have 5: "current held = START"
    by (simp add: held_def async_router_def scenario_simps)
  show ?thesis
    using 1 2 3 4 5 by simp
qed

end
